theory Spec2Isabelle
  imports Complex_Main "HOL-Library.Multiset" "HOL-Library.Word"
begin

section \<open>The per-vertex accumulator (\<open>vertex_functor_set\<close>)\<close>

text \<open>
  The accumulator is a vector of slots, one per vertex. Each slot holds a flag
  \<open>is_set\<close> and a payload; the payload type \<open>update_functor_type\<close> is a template
  parameter of the engine, so it is a type variable here, and its merge operator
  \<open>+=\<close>, its default constructor and its \<open>priority()\<close> are parameters of the
  operations that use them. A slot's spinlock serialises the operations on that slot;
  the model is the sequential semantics of each critical section.
\<close>

type_synonym vertex_id_type = nat

text \<open>
  Modelled from the spec: the macros \<open>ASSERT_TRUE\<close> and \<open>ASSERT_LT\<close> are not among
  the source files. A violated assertion is a fatal precondition failure: the call
  does not return a value, which is the \<open>Inl\<close> branch of the result.
\<close>

datatype fatal = Assertion_Failure

definition ASSERT_TRUE :: "bool \<Rightarrow> (fatal + 'a) \<Rightarrow> fatal + 'a" where
  "ASSERT_TRUE c k = (if c then k else Inl Assertion_Failure)"

definition ASSERT_LT :: "nat \<Rightarrow> nat \<Rightarrow> (fatal + 'a) \<Rightarrow> fatal + 'a" where
  "ASSERT_LT a b k = (if a < b then k else Inl Assertion_Failure)"

record 'f vfun_type =
  is_set :: bool
  functor' :: 'f

text \<open>The constructor \<open>vfun_type() : is_set(false)\<close>; the payload is default-constructed.\<close>

definition vfun_type_init :: "'f \<Rightarrow> 'f vfun_type" where
  "vfun_type_init dflt = \<lparr>is_set = False, functor' = dflt\<rparr>"

text \<open>\<open>vfun_type::set\<close>: returns true if set for the first time.\<close>

definition vfun_type_set :: "('f \<Rightarrow> 'f \<Rightarrow> 'f) \<Rightarrow> 'f \<Rightarrow> 'f vfun_type \<Rightarrow> bool \<times> 'f vfun_type" where
  "vfun_type_set merge_add other s =
     (let already_set = is_set s;
          s' = (if is_set s then s\<lparr>functor' := merge_add (functor' s) other\<rparr>
                else s\<lparr>functor' := other, is_set := True\<rparr>)
      in (\<not> already_set, s'))"

text \<open>
  \<open>vfun_type::get\<close>: the assertion, the copy into \<open>ret\<close>, the clearing of the flag,
  and the return of the field \<open>functor\<close> (not of \<open>ret\<close>), read after the flag is
  cleared.
\<close>

definition vfun_type_get :: "'f vfun_type \<Rightarrow> fatal + ('f \<times> 'f vfun_type)" where
  "vfun_type_get s =
     ASSERT_TRUE (is_set s)
       (let ret = functor' s;
            s' = s\<lparr>is_set := False\<rparr>
        in Inr (functor' s', s'))"

definition vfun_type_priority :: "('f \<Rightarrow> 'p) \<Rightarrow> 'f vfun_type \<Rightarrow> bool \<times> 'p" where
  "vfun_type_priority prio s =
     (let was_set = is_set s; priority = prio (functor' s) in (was_set, priority))"

text \<open>
  \<open>vfun_type::test_and_get\<close> writes the payload through the reference \<open>ret\<close>: the
  model takes the old value of \<open>ret\<close> and returns the new one next to the boolean.
\<close>

definition vfun_type_test_and_get :: "'f \<Rightarrow> 'f vfun_type \<Rightarrow> bool \<times> 'f \<times> 'f vfun_type" where
  "vfun_type_test_and_get ret s =
     (let success = is_set s
      in if success then (success, functor' s, s\<lparr>is_set := False\<rparr>)
         else (success, ret, s))"

text \<open>The vector of slots. \<open>std::vector::resize\<close> truncates or appends fresh slots.\<close>

type_synonym 'f vfun_set_type = "'f vfun_type list"

definition resize :: "'f \<Rightarrow> nat \<Rightarrow> 'f vfun_set_type \<Rightarrow> 'f vfun_set_type" where
  "resize dflt num_vertices vfun_set =
     take num_vertices vfun_set @
     replicate (num_vertices - length vfun_set) (vfun_type_init dflt)"

definition priority :: "('f \<Rightarrow> 'p) \<Rightarrow> vertex_id_type \<Rightarrow> 'f vfun_set_type \<Rightarrow> fatal + (bool \<times> 'p)" where
  "priority prio vid vfun_set =
     ASSERT_LT vid (length vfun_set) (Inr (vfun_type_priority prio (vfun_set ! vid)))"

definition add :: "('f \<Rightarrow> 'f \<Rightarrow> 'f) \<Rightarrow> vertex_id_type \<Rightarrow> 'f \<Rightarrow> 'f vfun_set_type
    \<Rightarrow> fatal + (bool \<times> 'f vfun_set_type)" where
  "add merge_add vid fun vfun_set =
     ASSERT_LT vid (length vfun_set)
       (let (r, s') = vfun_type_set merge_add fun (vfun_set ! vid)
        in Inr (r, vfun_set[vid := s']))"

definition test_and_get :: "vertex_id_type \<Rightarrow> 'f \<Rightarrow> 'f vfun_set_type
    \<Rightarrow> fatal + (bool \<times> 'f \<times> 'f vfun_set_type)" where
  "test_and_get vid ret_fun vfun_set =
     ASSERT_LT vid (length vfun_set)
       (let (r, ret', s') = vfun_type_test_and_get ret_fun (vfun_set ! vid)
        in Inr (r, ret', vfun_set[vid := s']))"

section \<open>Sparse weighted maps\<close>

text \<open>
  \<open>float_type\<close> is \<open>float\<close>. A \<open>float\<close> or \<open>double\<close> value is the real number it
  denotes, and comparisons of such values are exact. An arithmetic operation or a
  conversion that yields a \<open>float\<close> is the exact operation followed by the rounding
  \<open>to_float\<close>, one that yields a \<open>double\<close> by the rounding \<open>to_double\<close> (each
  expression is evaluated in the format of its type). The two roundings are
  parameters of everything that computes: what is proved holds for any arithmetic,
  single and double precision as the machine has them included. Infinities and NaN
  are not values of the model; where the code would produce one, the model says so.
\<close>

type_synonym float_type = real
type_synonym uint16_t = "16 word"

record float_arith =
  to_float :: "real \<Rightarrow> real"
  to_double :: "real \<Rightarrow> real"

text \<open>
  The arithmetic of the machine, \<open>ieee\<close>, on which the concrete runs below are
  evaluated: IEEE 754 rounding to the nearest value of \<open>p\<close> significant bits, ties
  to the even significand, with no bound on the exponent (no overflow, no subnormal
  numbers); 24 bits for \<open>float\<close>, 53 for \<open>double\<close>.
\<close>

definition pow2 :: "int \<Rightarrow> real" where
  "pow2 e = (if 0 \<le> e then 2 ^ nat e else 1 / 2 ^ nat (- e))"

definition round_half_even :: "real \<Rightarrow> int" where
  "round_half_even q =
     (if q - of_int \<lfloor>q\<rfloor> < 1 / 2 then \<lfloor>q\<rfloor>
      else if 1 / 2 < q - of_int \<lfloor>q\<rfloor> then \<lfloor>q\<rfloor> + 1
      else if even \<lfloor>q\<rfloor> then \<lfloor>q\<rfloor> else \<lfloor>q\<rfloor> + 1)"

definition round_to_precision :: "nat \<Rightarrow> real \<Rightarrow> real" where
  "round_to_precision p x =
     (if x = 0 then 0
      else (let ulp = pow2 (\<lfloor>log 2 \<bar>x\<bar>\<rfloor> - int p + 1)
            in ulp * of_int (round_half_even (x / ulp))))"

definition ieee :: float_arith where
  "ieee = \<lparr>to_float = round_to_precision 24, to_double = round_to_precision 53\<rparr>"

text \<open>
  A \<open>boost::container::flat_map\<close> is a vector of key-value pairs kept sorted by key,
  with unique keys: an association list whose keys increase strictly. A
  \<open>boost::unordered_map\<close> has unique keys and no order a caller may rely on: an
  association list in whatever order the table happens to have.
\<close>

type_synonym map_t = "(vertex_id_type \<times> uint16_t) list"
type_synonym vec_map_t = "(vertex_id_type \<times> float_type) list"
type_synonym vec_map2_t = "(vertex_id_type \<times> float_type) list"

text \<open>
  \<open>const float_type RESET_PROB = 0.15\<close>: the literal is a \<open>double\<close>, converted to
  \<open>float\<close>.
\<close>

definition RESET_PROB :: "float_arith \<Rightarrow> float_type" where
  "RESET_PROB fp = to_float fp (to_double fp 0.15)"

definition flat_map_inv :: "(vertex_id_type \<times> 'v) list \<Rightarrow> bool" where
  "flat_map_inv m = sorted_wrt (<) (map fst m)"

text \<open>The weight a sparse map gives a key: an absent key weighs zero.\<close>

definition weight_of :: "(vertex_id_type \<times> 'v::zero) list \<Rightarrow> vertex_id_type \<Rightarrow> 'v" where
  "weight_of m k = (case map_of m k of None \<Rightarrow> 0 | Some v \<Rightarrow> v)"

text \<open>
  \<open>m[k] = f(m[k])\<close> on a flat map: \<open>operator[]\<close> inserts a value-initialised (zero)
  entry at the key's place when the key is missing.
\<close>

fun flat_map_modify :: "vertex_id_type \<Rightarrow> ('v \<Rightarrow> 'v) \<Rightarrow> (vertex_id_type \<times> 'v::zero) list
    \<Rightarrow> (vertex_id_type \<times> 'v) list" where
  "flat_map_modify k f [] = [(k, f 0)]"
| "flat_map_modify k f ((k', v) # m) =
     (if k = k' then (k', f v) # m
      else if k < k' then (k, f 0) # (k', v) # m
      else (k', v) # flat_map_modify k f m)"

text \<open>\<open>it->second = x\<close> through an iterator that \<open>find(k)\<close> returned.\<close>

fun flat_map_assign_found :: "vertex_id_type \<Rightarrow> 'v \<Rightarrow> (vertex_id_type \<times> 'v) list
    \<Rightarrow> (vertex_id_type \<times> 'v) list" where
  "flat_map_assign_found k x [] = []"
| "flat_map_assign_found k x ((k', v) # m) =
     (if k = k' then (k', x) # m else (k', v) # flat_map_assign_found k x m)"

text \<open>
  The range constructor of a flat map inserts the elements one by one; an element
  whose key is already there is dropped.
\<close>

fun flat_map_insert :: "vertex_id_type \<times> 'v \<Rightarrow> (vertex_id_type \<times> 'v) list
    \<Rightarrow> (vertex_id_type \<times> 'v) list" where
  "flat_map_insert (k, x) [] = [(k, x)]"
| "flat_map_insert (k, x) ((k', v) # m) =
     (if k = k' then (k', v) # m
      else if k < k' then (k, x) # (k', v) # m
      else (k', v) # flat_map_insert (k, x) m)"

definition flat_map_of_range :: "(vertex_id_type \<times> 'v) list \<Rightarrow> (vertex_id_type \<times> 'v) list" where
  "flat_map_of_range xs = foldl (\<lambda>m e. flat_map_insert e m) [] xs"

text \<open>\<open>m[k] = f(m[k])\<close> on an unordered map: a missing key gets a zero entry first.\<close>

fun unordered_map_modify :: "vertex_id_type \<Rightarrow> ('v \<Rightarrow> 'v) \<Rightarrow> (vertex_id_type \<times> 'v::zero) list
    \<Rightarrow> (vertex_id_type \<times> 'v) list" where
  "unordered_map_modify k f [] = [(k, f 0)]"
| "unordered_map_modify k f ((k', v) # m) =
     (if k = k' then (k', f v) # m else (k', v) # unordered_map_modify k f m)"

text \<open>\<open>vec_type::operator+=\<close> on \<open>vec_t\<close>: \<open>val[it->first] += it->second\<close> for every entry of \<open>other\<close>.\<close>

fun vec_add :: "float_arith \<Rightarrow> vec_map_t \<Rightarrow> vec_map_t \<Rightarrow> vec_map_t" where
  "vec_add fp val [] = val"
| "vec_add fp val ((k, x) # other) =
     vec_add fp (flat_map_modify k (\<lambda>v. to_float fp (v + x)) val) other"

section \<open>Vertex data, globals and the two vertex programs\<close>

record VertexData =
  ppr :: vec_map_t
  flow :: vec_map_t
  residual :: vec_map_t

text \<open>
  \<open>VertexData::save\<close> and \<open>load\<close> read the global \<open>phase\<close>. In the phase
  \<open>INIT_GRAPH\<close> the archive holds the quantized map \<open>counter\<close>, in the phase
  \<open>COMPUTE\<close> the three maps. The conversion of a \<open>float\<close> to \<open>uint16_t\<close> truncates
  towards zero, and is undefined when the truncated value is not a \<open>uint16_t\<close>:
  \<open>None\<close>, and then \<open>save\<close> has no result.
\<close>

datatype phase_t = INIT_GRAPH | COMPUTE

datatype archive = Quantized map_t | Full vec_map_t vec_map_t vec_map_t

definition float_to_uint16 :: "float_type \<Rightarrow> uint16_t option" where
  "float_to_uint16 x =
     (let t = (if x < 0 then \<lceil>x\<rceil> else \<lfloor>x\<rfloor>)
      in if 0 \<le> t \<and> t < 65536 then Some (word_of_int t) else None)"

text \<open>The loop of \<open>save\<close>: \<open>counter[it->first] = it->second * 0xFFFF\<close>.\<close>

fun save_loop :: "float_arith \<Rightarrow> vec_map_t \<Rightarrow> map_t \<Rightarrow> map_t option" where
  "save_loop fp [] counter = Some counter"
| "save_loop fp ((k, x) # p) counter =
     (case float_to_uint16 (to_float fp (x * 65535)) of
        None \<Rightarrow> None
      | Some c \<Rightarrow> save_loop fp p (flat_map_modify k (\<lambda>_. c) counter))"

definition VertexData_save :: "float_arith \<Rightarrow> phase_t \<Rightarrow> VertexData \<Rightarrow> archive option" where
  "VertexData_save fp phase d =
     (case phase of
        INIT_GRAPH \<Rightarrow> map_option Quantized (save_loop fp (ppr d) [])
      | COMPUTE \<Rightarrow> Some (Full (ppr d) (flow d) (residual d)))"

text \<open>
  The loops of \<open>load\<close>: \<open>sum += it->second\<close> over the counter, in \<open>float\<close>, and
  \<open>it->second /= sum\<close> over the \<open>float\<close> copy of the counter. A \<open>uint16_t\<close>, like
  the constant \<open>0xFFFF\<close> of \<open>save\<close>, converts to the \<open>float\<close> of the same value. A
  division by a zero \<open>sum\<close> gives an infinity or a NaN: \<open>None\<close>. An archive of the
  other phase cannot be read: \<open>None\<close>.
\<close>

fun load_sum :: "float_arith \<Rightarrow> map_t \<Rightarrow> float_type \<Rightarrow> float_type" where
  "load_sum fp [] sm = sm"
| "load_sum fp ((k, c) # counter) sm = load_sum fp counter (to_float fp (sm + real (unat c)))"

fun load_divide :: "float_arith \<Rightarrow> float_type \<Rightarrow> vec_map_t \<Rightarrow> vec_map_t option" where
  "load_divide fp sm [] = Some []"
| "load_divide fp sm ((k, v) # val) =
     (if sm = 0 then None
      else map_option (\<lambda>rest. (k, to_float fp (v / sm)) # rest) (load_divide fp sm val))"

definition VertexData_load :: "float_arith \<Rightarrow> phase_t \<Rightarrow> archive \<Rightarrow> VertexData \<Rightarrow> VertexData option" where
  "VertexData_load fp phase a d =
     (case (phase, a) of
        (INIT_GRAPH, Quantized counter) \<Rightarrow>
          (let sm = load_sum fp counter 0;
               val = flat_map_of_range (map (\<lambda>(k, c). (k, real (unat c))) counter)
           in map_option (\<lambda>val'. d\<lparr>ppr := val'\<rparr>) (load_divide fp sm val))
      | (COMPUTE, Full p f r) \<Rightarrow> Some \<lparr>ppr = p, flow = f, residual = r\<rparr>
      | _ \<Rightarrow> None)"

text \<open>What the programs read of a vertex: \<open>id()\<close>, \<open>num_out_edges()\<close> and \<open>data()\<close>.\<close>

record vertex_type =
  vid :: vertex_id_type
  num_out_edges :: nat
  data :: VertexData

text \<open>
  The global variables the programs read. \<open>sources\<close> is a pointer to a set of vertex
  ids, \<open>NULL\<close> (here \<open>None\<close>) when no sources file was given.
\<close>

record globals =
  threshold :: float_type
  niters :: int
  no_index :: bool
  sources :: "vertex_id_type set option"

record DecompositionProgram =
  prog_flow :: vec_map_t

record CollectProgram =
  prog_ppr :: vec_map2_t

text \<open>\<open>DecompositionProgram::init\<close>; \<open>iteration\<close> is \<open>context.iteration()\<close>.\<close>

definition DecompositionProgram_init :: "globals \<Rightarrow> int \<Rightarrow> vertex_type \<Rightarrow> vec_map_t
    \<Rightarrow> DecompositionProgram \<Rightarrow> DecompositionProgram" where
  "DecompositionProgram_init g iteration vertex msg prog =
     (if iteration = 0 then
        (if (case sources g of None \<Rightarrow> True | Some s \<Rightarrow> vid vertex \<in> s)
         then prog\<lparr>prog_flow := flat_map_modify (vid vertex) (\<lambda>_. 1) (prog_flow prog)\<rparr>
         else prog)
      else prog\<lparr>prog_flow := msg\<rparr>)"

text \<open>
  The loop of \<open>DecompositionProgram::apply\<close> over the entries of the transient flow:
  it threads the vertex's residual and the new flow.
\<close>

fun apply_loop :: "float_arith \<Rightarrow> float_type \<Rightarrow> float_type \<Rightarrow> vec_map_t \<Rightarrow> vec_map_t
    \<Rightarrow> vec_map_t \<Rightarrow> vec_map_t \<times> vec_map_t" where
  "apply_loop fp c th [] res new_flow = (res, new_flow)"
| "apply_loop fp c th ((k, w) # fl) res new_flow =
     (let res' = flat_map_modify k (\<lambda>v. to_float fp (v + to_float fp (RESET_PROB fp * w))) res;
          t = to_float fp (c * w);
          new_flow' = (if t > th then flat_map_modify k (\<lambda>_. t) new_flow else new_flow)
      in apply_loop fp c th fl res' new_flow')"

text \<open>
  In \<open>apply\<close>, \<open>1 - RESET_PROB\<close> is a \<open>float\<close> difference; \<open>1.0 / num_out_edges()\<close>
  converts the count to \<open>double\<close> and divides in \<open>double\<close>; the product of the two is
  a \<open>double\<close>, converted to the \<open>float\<close> \<open>c\<close>.
\<close>

definition DecompositionProgram_apply :: "float_arith \<Rightarrow> globals \<Rightarrow> int \<Rightarrow> vertex_type
    \<Rightarrow> DecompositionProgram \<Rightarrow> vertex_type \<times> DecompositionProgram" where
  "DecompositionProgram_apply fp g iteration vertex prog =
     (if iteration = niters g - 1 then
        (vertex\<lparr>data := (data vertex)\<lparr>flow := vec_add fp (flow (data vertex)) (prog_flow prog)\<rparr>\<rparr>,
         prog\<lparr>prog_flow := []\<rparr>)
      else
        (let (res, new_flow) =
               (if prog_flow prog \<noteq> [] then
                  (let c = to_float fp (to_double fp
                             (to_float fp (1 - RESET_PROB fp) *
                              (if num_out_edges vertex > 0
                               then to_double fp (1 / to_double fp (real (num_out_edges vertex)))
                               else 1)))
                   in apply_loop fp c (threshold g) (prog_flow prog) (residual (data vertex)) [])
                else (residual (data vertex), []))
         in (vertex\<lparr>data := (data vertex)\<lparr>residual := res\<rparr>\<rparr>, prog\<lparr>prog_flow := new_flow\<rparr>)))"

text \<open>
  Modelled from the spec: the enumeration \<open>edge_dir_type\<close> is the engine's and not
  among the source files; the directions are none, in, out and all.
\<close>

datatype edge_dir_type = NO_EDGES | IN_EDGES | OUT_EDGES | ALL_EDGES

definition DecompositionProgram_scatter_edges :: "DecompositionProgram \<Rightarrow> edge_dir_type" where
  "DecompositionProgram_scatter_edges prog =
     (if prog_flow prog \<noteq> [] then OUT_EDGES else NO_EDGES)"

definition CollectProgram_init :: "vec_map2_t \<Rightarrow> CollectProgram \<Rightarrow> CollectProgram" where
  "CollectProgram_init msg prog = prog\<lparr>prog_ppr := msg\<rparr>"

definition CollectProgram_apply :: "vertex_type \<Rightarrow> CollectProgram \<Rightarrow> vertex_type" where
  "CollectProgram_apply vertex prog =
     (if prog_ppr prog \<noteq> [] then
        vertex\<lparr>data := (data vertex)\<lparr>ppr := flat_map_of_range (prog_ppr prog)\<rparr>\<rparr>
      else vertex)"

section \<open>The collection pass\<close>

text \<open>
  \<open>collect_results\<close> calls \<open>context.signal_vid(target, msg)\<close>; the model returns the
  signals in the order of the calls, next to the vertex as the pass leaves it.
\<close>

type_synonym signal = "vertex_id_type \<times> vec_map2_t"

fun collect_flow_loop :: "float_arith \<Rightarrow> float_type \<Rightarrow> vertex_id_type \<Rightarrow> vec_map_t
    \<Rightarrow> vec_map_t \<Rightarrow> vec_map_t \<Rightarrow> signal list \<times> vec_map_t" where
  "collect_flow_loop fp th i p [] res = ([], res)"
| "collect_flow_loop fp th i p ((k, w) # fl) res =
     (if w < th then collect_flow_loop fp th i p fl res
      else
        (let val = map (\<lambda>(j, x). (j, to_float fp (x * w))) p;
             (val', res') =
               (case map_of res k of
                  None \<Rightarrow> (val, res)
                | Some r \<Rightarrow> (unordered_map_modify i (\<lambda>x. to_float fp (x + r)) val,
                            flat_map_assign_found k 0 res));
             (sigs, res'') = collect_flow_loop fp th i p fl res'
         in ((k, val') # sigs, res'')))"

fun collect_residual_loop :: "float_type \<Rightarrow> vertex_id_type \<Rightarrow> vec_map_t \<Rightarrow> signal list" where
  "collect_residual_loop th i [] = []"
| "collect_residual_loop th i ((k, r) # res) =
     (if r < th then collect_residual_loop th i res
      else (k, unordered_map_modify i (\<lambda>_. r) []) # collect_residual_loop th i res)"

definition collect_results :: "float_arith \<Rightarrow> globals \<Rightarrow> vertex_type
    \<Rightarrow> signal list \<times> vertex_type" where
  "collect_results fp g vertex =
     (let (sigs1, res) =
            (if \<not> no_index g then
               collect_flow_loop fp (threshold g) (vid vertex) (ppr (data vertex))
                 (flow (data vertex)) (residual (data vertex))
             else ([], residual (data vertex)));
          sigs2 = collect_residual_loop (threshold g) (vid vertex) res
      in (sigs1 @ sigs2, vertex\<lparr>data := (data vertex)\<lparr>residual := []\<rparr>\<rparr>))"

section \<open>The result writer\<close>

definition compare :: "vertex_id_type \<times> float_type \<Rightarrow> vertex_id_type \<times> float_type \<Rightarrow> bool" where
  "compare firstElem secondElem = (snd firstElem > snd secondElem)"

text \<open>The decimal digits that \<open>operator<<\<close> writes for an unsigned integer.\<close>

definition digit_char :: "nat \<Rightarrow> char" where
  "digit_char d = ''0123456789'' ! d"

function string_of_nat :: "nat \<Rightarrow> string" where
  "string_of_nat n =
     (if n < 10 then [digit_char n] else string_of_nat (n div 10) @ [digit_char (n mod 10)])"
  by pat_completeness auto
termination
  by (relation "measure id") auto

declare string_of_nat.simps [simp del]

text \<open>
  \<open>std::sort\<close> is the standard library's. What the language promises of
  \<open>std::sort(first, last, comp)\<close> is that the range ends up a permutation of what it
  was in which no element compares before an earlier one; the order of elements that
  compare equivalent is unspecified. The writer takes the sort as a parameter, and
  \<open>std_sort_contract\<close> is that promise.
\<close>

definition std_sort_contract :: "(('a \<Rightarrow> 'a \<Rightarrow> bool) \<Rightarrow> 'a list \<Rightarrow> 'a list) \<Rightarrow> ('a \<Rightarrow> 'a \<Rightarrow> bool) \<Rightarrow> bool" where
  "std_sort_contract std_sort cmp =
     (\<forall>xs. mset (std_sort cmp xs) = mset xs \<and> sorted_wrt (\<lambda>a b. \<not> cmp b a) (std_sort cmp xs))"

definition save_vertex :: "((vertex_id_type \<times> float_type \<Rightarrow> vertex_id_type \<times> float_type \<Rightarrow> bool)
      \<Rightarrow> (vertex_id_type \<times> float_type) list \<Rightarrow> (vertex_id_type \<times> float_type) list)
    \<Rightarrow> nat \<Rightarrow> vertex_type \<Rightarrow> string" where
  "save_vertex std_sort topk vertex =
     (if ppr (data vertex) \<noteq> [] then
        (let result = std_sort compare (ppr (data vertex));
             len = min topk (length result)
         in string_of_nat (vid vertex) @ '' '' @ string_of_nat len @
            concat (map (\<lambda>i. '' '' @ string_of_nat (fst (result ! i))) [0..<len]) @
            [CHR 0x0A])
      else [])"

section \<open>Properties of the rounding\<close>

text \<open>
  A value between \<open>2^e\<close> and \<open>2^(e+1)\<close> is rounded on the grid of step
  \<open>2^(e-p+1)\<close>; a value of at most \<open>p\<close> significant bits is left as it is, and
  rounding moves any value by at most \<open>2^-p\<close> of itself.
\<close>

lemma pow2_powr: "pow2 e = 2 powr of_int e"
  by (simp add: pow2_def powr_int)

lemma pow2_pos: "0 < pow2 e"
  by (simp add: pow2_powr)

lemma pow2_add: "pow2 (a + b) = pow2 a * pow2 b"
  by (simp add: pow2_powr powr_add)

lemma pow2_less_iff: "pow2 a < pow2 b \<longleftrightarrow> a < b"
  by (simp add: pow2_powr)

lemma pow2_nat: "pow2 (int n) = 2 ^ n"
  by (simp add: pow2_def)

lemma pow2_neg_nat: "pow2 (- int n) = 1 / 2 ^ n"
  by (auto simp: pow2_def)

lemma round_half_even_int: "round_half_even (of_int m) = m"
  by (simp add: round_half_even_def)

lemma round_half_even_near: "\<bar>of_int (round_half_even q) - q\<bar> \<le> 1 / 2"
  unfolding round_half_even_def by (auto simp: abs_if; linarith)

lemma floor_log2_eq:
  assumes "pow2 e \<le> \<bar>x\<bar>" and "\<bar>x\<bar> < pow2 (e + 1)"
  shows "\<lfloor>log 2 \<bar>x\<bar>\<rfloor> = e"
proof -
  have pos: "0 < \<bar>x\<bar>"
    using assms(1) pow2_pos [of e] by linarith
  show ?thesis
    using assms pos by (simp add: floor_log_eq_powr_iff pow2_powr)
qed

lemma floor_log2_bounds:
  assumes "x \<noteq> 0"
  shows "pow2 \<lfloor>log 2 \<bar>x\<bar>\<rfloor> \<le> \<bar>x\<bar>" and "\<bar>x\<bar> < pow2 (\<lfloor>log 2 \<bar>x\<bar>\<rfloor> + 1)"
proof -
  have pos: "0 < \<bar>x\<bar>" using assms by simp
  have "2 powr of_int \<lfloor>log 2 \<bar>x\<bar>\<rfloor> \<le> \<bar>x\<bar> \<and> \<bar>x\<bar> < 2 powr (of_int \<lfloor>log 2 \<bar>x\<bar>\<rfloor> + 1)"
    using pos floor_log_eq_powr_iff [of "\<bar>x\<bar>" 2 "\<lfloor>log 2 \<bar>x\<bar>\<rfloor>"] by simp
  then show "pow2 \<lfloor>log 2 \<bar>x\<bar>\<rfloor> \<le> \<bar>x\<bar>" and "\<bar>x\<bar> < pow2 (\<lfloor>log 2 \<bar>x\<bar>\<rfloor> + 1)"
    by (simp_all add: pow2_powr)
qed

lemma round_to_precision_eval:
  assumes "pow2 e \<le> \<bar>x\<bar>" and "\<bar>x\<bar> < pow2 (e + 1)"
  shows "round_to_precision p x =
           pow2 (e - int p + 1) * of_int (round_half_even (x / pow2 (e - int p + 1)))"
proof -
  have "x \<noteq> 0"
    using assms(1) pow2_pos [of e] by auto
  then show ?thesis
    by (simp add: round_to_precision_def Let_def floor_log2_eq [OF assms])
qed

lemma round_to_precision_error:
  "\<bar>round_to_precision p x - x\<bar> \<le> pow2 (- int p) * \<bar>x\<bar>"
proof (cases "x = 0")
  case True
  then show ?thesis by (simp add: round_to_precision_def)
next
  case False
  let ?e = "\<lfloor>log 2 \<bar>x\<bar>\<rfloor>"
  let ?ulp = "pow2 (?e - int p + 1)"
  have ulp: "0 < ?ulp" by (rule pow2_pos)
  have r: "round_to_precision p x = ?ulp * of_int (round_half_even (x / ?ulp))"
    using False by (simp add: round_to_precision_def Let_def)
  have "\<bar>?ulp * of_int (round_half_even (x / ?ulp)) - x\<bar> =
      ?ulp * \<bar>of_int (round_half_even (x / ?ulp)) - x / ?ulp\<bar>"
  proof -
    have "?ulp * of_int (round_half_even (x / ?ulp)) - x =
        ?ulp * (of_int (round_half_even (x / ?ulp)) - x / ?ulp)"
      using ulp by (simp add: field_simps)
    then show ?thesis
      using ulp by (simp add: abs_mult)
  qed
  also have "\<dots> \<le> ?ulp * (1 / 2)"
    using ulp round_half_even_near [of "x / ?ulp"] by (intro mult_left_mono) simp_all
  also have "?ulp * (1 / 2) = pow2 (- int p) * pow2 ?e"
  proof -
    have "?ulp = pow2 ?e * pow2 (- int p) * pow2 1"
      by (simp add: pow2_add [symmetric])
    then show ?thesis by (simp add: pow2_def)
  qed
  also have "\<dots> \<le> pow2 (- int p) * \<bar>x\<bar>"
    using floor_log2_bounds(1) [OF False] pow2_pos [of "- int p"]
    by (intro mult_left_mono) simp_all
  finally show ?thesis by (simp add: r)
qed

text \<open>A value of at most \<open>p\<close> significant bits is its own rounding.\<close>

lemma round_to_precision_exact:
  assumes m: "\<bar>m\<bar> \<le> 2 ^ p" and p: "0 < p"
  shows "round_to_precision p (of_int m * pow2 e) = of_int m * pow2 e"
proof (cases "m = 0")
  case True
  then show ?thesis by (simp add: round_to_precision_def)
next
  case False
  define x :: real where "x = of_int m * pow2 e"
  define E where "E = \<lfloor>log 2 \<bar>x\<bar>\<rfloor>"
  define U where "U = pow2 (E - int p + 1)"
  have U: "0 < U"
    unfolding U_def by (rule pow2_pos)
  have x0: "x \<noteq> 0"
    using False pow2_pos [of e] by (simp add: x_def)
  have r: "round_to_precision p x = U * of_int (round_half_even (x / U))"
    using x0 by (simp add: round_to_precision_def Let_def U_def E_def)
  have absx: "\<bar>x\<bar> = of_int \<bar>m\<bar> * pow2 e"
    using pow2_pos [of e] by (simp add: x_def abs_mult)
  have le: "\<bar>x\<bar> \<le> pow2 (int p + e)"
  proof -
    have "(of_int \<bar>m\<bar> :: real) \<le> of_int (2 ^ p)"
      using m by (simp only: of_int_le_iff)
    then have "(of_int \<bar>m\<bar> :: real) \<le> 2 ^ p"
      by simp
    then have "of_int \<bar>m\<bar> * pow2 e \<le> 2 ^ p * pow2 e"
      using pow2_pos [of e] by (intro mult_right_mono) simp_all
    then show ?thesis
      by (simp add: absx pow2_add pow2_nat)
  qed
  have "\<exists>z. x / U = of_int z"
  proof (cases "\<bar>x\<bar> < pow2 (int p + e)")
    case True
    from floor_log2_bounds(1) [OF x0] True have "pow2 E < pow2 (int p + e)"
      unfolding E_def by linarith
    then have "E < int p + e"
      by (simp add: pow2_less_iff)
    define d where "d = nat (e - (E - int p + 1))"
    have "e = (E - int p + 1) + int d"
      using \<open>E < int p + e\<close> by (simp add: d_def)
    then have "pow2 e = U * 2 ^ d"
      unfolding U_def by (metis pow2_add pow2_nat)
    then have "x = U * of_int (m * 2 ^ d)"
      by (simp add: x_def)
    then have "x / U = of_int (m * 2 ^ d)"
      using U by simp
    then show ?thesis ..
  next
    case False
    with le have eq: "\<bar>x\<bar> = pow2 (int p + e)" by simp
    have E: "E = int p + e"
      unfolding E_def using eq by (intro floor_log2_eq) (simp_all add: pow2_less_iff)
    have "(of_int \<bar>m\<bar> :: real) = 2 ^ p"
      using eq pow2_pos [of e] by (simp add: absx pow2_add pow2_nat)
    then have "(of_int \<bar>m\<bar> :: real) = of_int (2 ^ p)"
      by simp
    then have "\<bar>m\<bar> = 2 ^ p"
      by (simp only: of_int_eq_iff)
    with p have "even \<bar>m\<bar>"
      by simp
    then have "even m"
      by simp
    then obtain z where z: "m = 2 * z" by (elim evenE)
    have "pow2 1 = 2"
      by (simp add: pow2_def)
    moreover have "U = pow2 (e + 1)"
      by (simp add: U_def E)
    ultimately have "U = 2 * pow2 e"
      by (simp add: pow2_add)
    then have "x = U * of_int z"
      by (simp add: x_def z)
    then have "x / U = of_int z"
      using U by simp
    then show ?thesis ..
  qed
  then obtain z where z: "x / U = of_int z" ..
  have "U * of_int z = x"
    using z U by (simp add: field_simps)
  then have "round_to_precision p x = x"
    unfolding r z round_half_even_int by simp
  then show ?thesis
    by (simp add: x_def)
qed

lemma to_float_ieee: "to_float ieee = round_to_precision 24"
  by (simp add: ieee_def)

lemma to_double_ieee: "to_double ieee = round_to_precision 53"
  by (simp add: ieee_def)

lemma to_float_ieee_nat: "x \<in> \<nat> \<Longrightarrow> x \<le> 16777216 \<Longrightarrow> to_float ieee x = x"
proof -
  assume "x \<in> \<nat>" and le: "x \<le> 16777216"
  then obtain n where n: "x = real n" by (auto elim: Nats_cases)
  with le have "\<bar>int n\<bar> \<le> 2 ^ 24" by simp
  from round_to_precision_exact [OF this, of 0] show ?thesis
    by (simp add: ieee_def n pow2_def)
qed

lemma to_double_ieee_nat: "x \<in> \<nat> \<Longrightarrow> x \<le> 9007199254740992 \<Longrightarrow> to_double ieee x = x"
proof -
  assume "x \<in> \<nat>" and le: "x \<le> 9007199254740992"
  then obtain n where n: "x = real n" by (auto elim: Nats_cases)
  with le have "\<bar>int n\<bar> \<le> 2 ^ 53" by simp
  from round_to_precision_exact [OF this, of 0] show ?thesis
    by (simp add: ieee_def n pow2_def)
qed

lemma to_float_ieee_dyadic:
  "\<bar>m\<bar> \<le> 16777216 \<Longrightarrow> to_float ieee (of_int m / 2 ^ n) = of_int m / 2 ^ n"
proof -
  assume "\<bar>m\<bar> \<le> 16777216"
  then have "\<bar>m\<bar> \<le> 2 ^ 24" by simp
  from round_to_precision_exact [OF this, of "- int n"] show ?thesis
    by (simp add: ieee_def pow2_neg_nat)
qed

text \<open>
  What the theorems on the quantized serialization ask of an arithmetic, and single
  precision has: every integer up to \<open>2^24\<close> is a \<open>float\<close>, and rounding moves a
  value by at most \<open>2^-24\<close> of itself.
\<close>

lemma ieee_exact_nat: "\<forall>n \<le> 2 ^ 24. to_float ieee (real n) = real n"
  by (simp add: to_float_ieee_nat)

lemma ieee_relative_error: "\<forall>x. \<bar>to_float ieee x - x\<bar> \<le> 1 / 2 ^ 24 * \<bar>x\<bar>"
  using round_to_precision_error [of 24] by (simp add: to_float_ieee pow2_def)

text \<open>
  Between \<open>2^24\<close> and \<open>2^25\<close> the \<open>float\<close> values are the even integers; an odd integer
  lies halfway between two of them and goes to the one whose significand is even.
\<close>

lemma round_half_even_tie: "round_half_even (of_int z + 1 / 2) = (if even z then z else z + 1)"
proof -
  have "\<lfloor>of_int z + 1 / 2 :: real\<rfloor> = z"
    by (simp add: floor_eq_iff)
  then show ?thesis
    by (simp add: round_half_even_def)
qed

lemma to_float_ieee_tie_up:
  assumes "16777216 \<le> 4 * j + 3" and "4 * j + 3 < (33554432 :: nat)"
  shows "to_float ieee (real (4 * j + 3)) = real (4 * j + 4)"
proof -
  have lo: "pow2 24 \<le> \<bar>real (4 * j + 3)\<bar>"
    using assms(1) by (simp add: pow2_def)
  have hi: "\<bar>real (4 * j + 3)\<bar> < pow2 (24 + 1)"
    using assms(2) by (simp add: pow2_def)
  have "real (4 * j + 3) / pow2 (24 - int 24 + 1) = of_int (2 * int j + 1) + 1 / 2"
    by (simp add: pow2_def field_simps)
  then have "round_half_even (real (4 * j + 3) / pow2 (24 - int 24 + 1)) = 2 * int j + 2"
    by (simp only: round_half_even_tie) simp
  with round_to_precision_eval [OF lo hi, of 24] show ?thesis
    by (simp add: to_float_ieee pow2_def)
qed

section \<open>Properties of the accumulator\<close>

lemma resize_length: "length (resize dflt n vs) = n"
  by (simp add: resize_def)

lemma vfun_type_overwrite:
  "(s :: 'f vfun_type)\<lparr>functor' := a, is_set := b\<rparr> = \<lparr>is_set = b, functor' = a\<rparr>"
  by (cases s) simp

text \<open>
  Claim C1. After \<open>resize(n)\<close>, for a slot \<open>v < n\<close> that is not set: the first
  \<open>add(v, p1)\<close> returns true and stores \<open>p1\<close>; a second \<open>add(v, p2)\<close> returns false
  and leaves the merged payload \<open>p1 += p2\<close> pending; \<open>test_and_get(v)\<close> then returns
  true with that merged payload and clears the flag; and a \<open>test_and_get(v)\<close> right
  after it returns false and leaves the caller's \<open>ret\<close> as it was.
\<close>

theorem add_twice_then_test_and_get:
  assumes "v < n" and "\<not> is_set (resize dflt n vs ! v)"
  shows "let A0 = resize dflt n vs;
             A1 = A0[v := \<lparr>is_set = True, functor' = p1\<rparr>];
             A2 = A0[v := \<lparr>is_set = True, functor' = merge_add p1 p2\<rparr>];
             A3 = A0[v := \<lparr>is_set = False, functor' = merge_add p1 p2\<rparr>]
         in add merge_add v p1 A0 = Inr (True, A1) \<and>
            add merge_add v p2 A1 = Inr (False, A2) \<and>
            test_and_get v r A2 = Inr (True, merge_add p1 p2, A3) \<and>
            test_and_get v r' A3 = Inr (False, r', A3)"
proof -
  have len: "v < length (resize dflt n vs)"
    using assms(1) by (simp add: resize_length)
  show ?thesis
    using len assms(2)
    by (simp add: Let_def add_def test_and_get_def ASSERT_LT_def vfun_type_set_def
        vfun_type_test_and_get_def vfun_type_overwrite)
qed

theorem add_twice_then_test_and_get_witness:
  "add (vec_add ieee) 3 [(0, 1)] (resize [] 5 []) =
     Inr (True, (resize [] 5 [])[3 := \<lparr>is_set = True, functor' = [(0, 1)]\<rparr>]) \<and>
   add (vec_add ieee) 3 [(0, 2), (1, 1)] ((resize [] 5 [])[3 := \<lparr>is_set = True, functor' = [(0, 1)]\<rparr>]) =
     Inr (False, (resize [] 5 [])[3 := \<lparr>is_set = True, functor' = [(0, 3), (1, 1)]\<rparr>]) \<and>
   test_and_get 3 [] ((resize [] 5 [])[3 := \<lparr>is_set = True, functor' = [(0, 3), (1, 1)] :: vec_map_t\<rparr>]) =
     Inr (True, [(0, 3), (1, 1)], (resize [] 5 [])[3 := \<lparr>is_set = False, functor' = [(0, 3), (1, 1)]\<rparr>]) \<and>
   test_and_get 3 [(9, 9)] ((resize [] 5 [])[3 := \<lparr>is_set = False, functor' = [(0, 3), (1, 1)] :: vec_map_t\<rparr>]) =
     Inr (False, [(9, 9)], (resize [] 5 [])[3 := \<lparr>is_set = False, functor' = [(0, 3), (1, 1)]\<rparr>])"
proof -
  have unset: "\<not> is_set (resize ([] :: vec_map_t) 5 [] ! 3)"
    by (simp add: resize_def vfun_type_init_def)
  show ?thesis
    using add_twice_then_test_and_get [where v = 3 and n = 5 and dflt = "[]" and vs = "[]"
        and merge_add = "vec_add ieee" and ?p1.0 = "[(0, 1)]" and ?p2.0 = "[(0, 2), (1, 1)]"
        and r = "[]" and r' = "[(9, 9)]", OF _ unset]
    by (simp add: Let_def to_float_ieee_nat)
qed

text \<open>
  Claim C4. On a slot whose flag is set, \<open>get\<close> returns the payload and clears the
  flag: the value it returns and the slot it leaves are those of \<open>test_and_get\<close>,
  without the boolean.
\<close>

theorem get_returns_what_test_and_get_returns:
  assumes "is_set s"
  shows "vfun_type_get s = Inr (functor' s, s\<lparr>is_set := False\<rparr>) \<and>
         vfun_type_test_and_get ret s = (True, functor' s, s\<lparr>is_set := False\<rparr>)"
  using assms
  by (simp add: vfun_type_get_def vfun_type_test_and_get_def ASSERT_TRUE_def Let_def)

theorem get_returns_what_test_and_get_returns_witness:
  "is_set \<lparr>is_set = True, functor' = [(1, 1/2)] :: vec_map_t\<rparr> \<and>
   vfun_type_get \<lparr>is_set = True, functor' = [(1, 1/2)] :: vec_map_t\<rparr> =
     Inr ([(1, 1/2)], \<lparr>is_set = False, functor' = [(1, 1/2)]\<rparr>) \<and>
   vfun_type_test_and_get [] \<lparr>is_set = True, functor' = [(1, 1/2)] :: vec_map_t\<rparr> =
     (True, [(1, 1/2)], \<lparr>is_set = False, functor' = [(1, 1/2)]\<rparr>)"
  using get_returns_what_test_and_get_returns [of "\<lparr>is_set = True, functor' = [(1, 1/2)] :: vec_map_t\<rparr>" "[]"]
  by simp

text \<open>
  Claim C9. On an accumulator of \<open>n\<close> slots, \<open>add\<close>, \<open>test_and_get\<close> and \<open>priority\<close>
  with a vertex id that is not below \<open>n\<close> fail the assertion, and so does \<open>get\<close> on a
  slot that is not set; with an id below \<open>n\<close>, and for \<open>get\<close> a slot that is set, each
  returns its value and the assertion does not fire.
\<close>

theorem accumulator_assertions:
  assumes "length vfun_set = n"
  shows "(\<not> v < n \<longrightarrow>
            add merge_add v f vfun_set = Inl Assertion_Failure \<and>
            test_and_get v ret vfun_set = Inl Assertion_Failure \<and>
            priority prio v vfun_set = Inl Assertion_Failure) \<and>
         (\<not> is_set s \<longrightarrow> vfun_type_get s = Inl Assertion_Failure) \<and>
         (v < n \<longrightarrow>
            add merge_add v f vfun_set =
              Inr (fst (vfun_type_set merge_add f (vfun_set ! v)),
                   vfun_set[v := snd (vfun_type_set merge_add f (vfun_set ! v))]) \<and>
            test_and_get v ret vfun_set =
              Inr (fst (vfun_type_test_and_get ret (vfun_set ! v)),
                   fst (snd (vfun_type_test_and_get ret (vfun_set ! v))),
                   vfun_set[v := snd (snd (vfun_type_test_and_get ret (vfun_set ! v)))]) \<and>
            priority prio v vfun_set = Inr (is_set (vfun_set ! v), prio (functor' (vfun_set ! v)))) \<and>
         (is_set s \<longrightarrow> vfun_type_get s = Inr (functor' s, s\<lparr>is_set := False\<rparr>))"
  using assms
  by (simp add: add_def test_and_get_def priority_def vfun_type_get_def ASSERT_LT_def
      ASSERT_TRUE_def vfun_type_priority_def Let_def split: prod.splits)


theorem accumulator_assertions_witness:
  "add (vec_add ieee) 5 [(0, 1)] (resize [] 2 []) = Inl Assertion_Failure \<and>
   test_and_get 5 ([] :: vec_map_t) (resize [] 2 []) = Inl Assertion_Failure \<and>
   priority length 5 (resize ([] :: vec_map_t) 2 []) = Inl Assertion_Failure \<and>
   vfun_type_get \<lparr>is_set = False, functor' = [] :: vec_map_t\<rparr> = Inl Assertion_Failure \<and>
   add (vec_add ieee) 1 [(0, 1)] (resize [] 2 []) =
     Inr (True, [\<lparr>is_set = False, functor' = []\<rparr>, \<lparr>is_set = True, functor' = [(0, 1)]\<rparr>]) \<and>
   test_and_get 1 [(7, 1)] (resize ([] :: vec_map_t) 2 []) =
     Inr (False, [(7, 1)], [\<lparr>is_set = False, functor' = []\<rparr>, \<lparr>is_set = False, functor' = []\<rparr>]) \<and>
   priority length 1 (resize ([] :: vec_map_t) 2 []) = Inr (False, 0) \<and>
   vfun_type_get \<lparr>is_set = True, functor' = [(0, 1)] :: vec_map_t\<rparr> =
     Inr ([(0, 1)], \<lparr>is_set = False, functor' = [(0, 1)]\<rparr>)"
proof -
  have len: "length (resize ([] :: vec_map_t) 2 []) = 2"
    by (simp add: resize_def)
  have r: "resize ([] :: vec_map_t) 2 [] = [\<lparr>is_set = False, functor' = []\<rparr>, \<lparr>is_set = False, functor' = []\<rparr>]"
    by (simp add: resize_def vfun_type_init_def numeral_2_eq_2)
  show ?thesis
    using accumulator_assertions [OF len, where v = 5 and merge_add = "vec_add ieee" and f = "[(0, 1)]"
        and ret = "[]" and prio = length and s = "\<lparr>is_set = False, functor' = [] :: vec_map_t\<rparr>"]
      accumulator_assertions [OF len, where v = 1 and merge_add = "vec_add ieee" and f = "[(0, 1)]"
        and ret = "[(7, 1)]" and prio = length and s = "\<lparr>is_set = True, functor' = [(0, 1)] :: vec_map_t\<rparr>"]
    by (simp add: r vfun_type_set_def vfun_type_test_and_get_def Let_def)
qed

section \<open>Properties of the sparse maps\<close>

lemma flat_map_inv_Cons:
  "flat_map_inv ((k, v) # m) \<longleftrightarrow> (\<forall>k' \<in> set (map fst m). k < k') \<and> flat_map_inv m"
  by (simp add: flat_map_inv_def)

lemma flat_map_inv_distinct: "flat_map_inv m \<Longrightarrow> distinct (map fst m)"
  by (simp add: flat_map_inv_def strict_sorted_iff)

lemma flat_map_inv_less_notin:
  "flat_map_inv ((k', v) # m) \<Longrightarrow> k < k' \<Longrightarrow> map_of ((k', v) # m) k = None"
  by (auto simp: flat_map_inv_Cons map_of_eq_None_iff)

lemma keys_flat_map_modify:
  "set (map fst (flat_map_modify k f m)) = insert k (set (map fst m))"
  by (induction k f m rule: flat_map_modify.induct) (simp_all add: insert_commute)

lemma flat_map_modify_inv:
  "flat_map_inv m \<Longrightarrow> flat_map_inv (flat_map_modify k f m)"
proof (induction m)
  case Nil
  then show ?case by (simp add: flat_map_inv_def)
next
  case (Cons e m)
  obtain k' v where e: "e = (k', v)" by (cases e)
  from Cons.prems have below: "\<forall>j \<in> set (map fst m). k' < j" and inv: "flat_map_inv m"
    by (simp_all add: e flat_map_inv_Cons)
  show ?case
  proof (cases "k = k'")
    case True
    with below inv show ?thesis by (simp add: e flat_map_inv_Cons)
  next
    case False
    show ?thesis
    proof (cases "k < k'")
      case True
      with below inv show ?thesis
        by (auto simp: e flat_map_inv_Cons)
    next
      case ge: False
      with False have "k' < k" by simp
      with below inv Cons.IH False ge show ?thesis
        by (simp add: e flat_map_inv_Cons keys_flat_map_modify del: set_map)
    qed
  qed
qed

lemma map_of_flat_map_modify:
  "flat_map_inv m \<Longrightarrow>
     map_of (flat_map_modify k f m) = (map_of m)(k \<mapsto> f (weight_of m k))"
proof (induction m)
  case Nil
  then show ?case by (simp add: weight_of_def)
next
  case (Cons e m)
  obtain k' v where e: "e = (k', v)" by (cases e)
  from Cons.prems have inv: "flat_map_inv m"
    by (simp add: e flat_map_inv_Cons)
  show ?case
  proof (cases "k = k'")
    case True
    then show ?thesis by (auto simp: e weight_of_def)
  next
    case False
    show ?thesis
    proof (cases "k < k'")
      case True
      with Cons.prems have "map_of ((k', v) # m) k = None"
        unfolding e by (rule flat_map_inv_less_notin)
      with True False show ?thesis by (auto simp: e weight_of_def)
    next
      case ge: False
      with False Cons.IH [OF inv] show ?thesis
        by (auto simp: e weight_of_def)
    qed
  qed
qed

lemma flat_map_modify_append:
  "\<forall>j \<in> set (map fst m). j < k \<Longrightarrow> flat_map_modify k f m = m @ [(k, f 0)]"
  by (induction m) auto

lemma map_of_unordered_map_modify:
  "map_of (unordered_map_modify k f m) = (map_of m)(k \<mapsto> f (weight_of m k))"
  by (induction m) (auto simp: weight_of_def)

lemma map_of_flat_map_assign_found:
  "map_of (flat_map_assign_found k x m) j =
     (if j = k then map_option (\<lambda>_. x) (map_of m k) else map_of m j)"
  by (induction k x m rule: flat_map_assign_found.induct) auto

lemma flat_map_assign_found_distinct:
  "distinct (map fst m) \<Longrightarrow>
     flat_map_assign_found k x m = map (\<lambda>(j, r). (j, if j = k then x else r)) m"
  by (induction m) (auto intro!: map_idI[symmetric] simp: rev_image_eqI)


lemma weight_of_flat_map_modify:
  "flat_map_inv m \<Longrightarrow>
     weight_of (flat_map_modify k f m) j = (if j = k then f (weight_of m k) else weight_of m j)"
  by (simp add: weight_of_def map_of_flat_map_modify)

lemma vec_add_inv: "flat_map_inv val \<Longrightarrow> flat_map_inv (vec_add fp val other)"
  by (induction fp val other rule: vec_add.induct) (simp_all add: flat_map_modify_inv)

lemma map_of_vec_add:
  "flat_map_inv val \<Longrightarrow> distinct (map fst other) \<Longrightarrow>
     map_of (vec_add fp val other) j =
       (case map_of other j of
          None \<Rightarrow> map_of val j
        | Some x \<Rightarrow> Some (to_float fp (weight_of val j + x)))"
proof (induction fp val other rule: vec_add.induct)
  case (1 fp val)
  then show ?case by simp
next
  case (2 fp val k x other)
  let ?val' = "flat_map_modify k (\<lambda>v. to_float fp (v + x)) val"
  from "2.prems" have inv': "flat_map_inv ?val'" and d: "distinct (map fst other)"
    and notin: "map_of other k = None"
    by (simp_all add: flat_map_modify_inv map_of_eq_None_iff)
  have IH: "map_of (vec_add fp ?val' other) j =
      (case map_of other j of None \<Rightarrow> map_of ?val' j
       | Some y \<Rightarrow> Some (to_float fp (weight_of ?val' j + y)))"
    by (rule "2.IH" [OF inv' d])
  show ?case
  proof (cases "j = k")
    case True
    with IH notin "2.prems"(1) show ?thesis
      by (simp add: map_of_flat_map_modify)
  next
    case False
    with IH "2.prems"(1) show ?thesis
      by (simp add: map_of_flat_map_modify weight_of_flat_map_modify split: option.splits)
  qed
qed

lemma keys_flat_map_insert:
  "set (map fst (flat_map_insert e m)) = insert (fst e) (set (map fst m))"
  by (induction e m rule: flat_map_insert.induct) (simp_all add: insert_commute)

lemma flat_map_insert_inv:
  "flat_map_inv m \<Longrightarrow> flat_map_inv (flat_map_insert e m)"
proof (induction e m rule: flat_map_insert.induct)
  case (1 k x)
  then show ?case by (simp add: flat_map_inv_def)
next
  case (2 k x k' v m)
  from "2.prems" have below: "\<forall>j \<in> set (map fst m). k' < j" and inv: "flat_map_inv m"
    by (simp_all add: flat_map_inv_Cons)
  show ?case
  proof (cases "k = k'")
    case True
    with "2.prems" show ?thesis by simp
  next
    case False
    show ?thesis
    proof (cases "k < k'")
      case True
      with below inv show ?thesis
        by (auto simp: flat_map_inv_Cons)
    next
      case ge: False
      with False have "k' < k" by simp
      with below inv "2.IH" False ge show ?thesis
        by (simp add: flat_map_inv_Cons keys_flat_map_insert del: set_map)
    qed
  qed
qed

lemma map_of_flat_map_insert:
  "flat_map_inv m \<Longrightarrow>
     map_of (flat_map_insert (k, x) m) j =
       (if j = k \<and> map_of m k = None then Some x else map_of m j)"
proof (induction "(k, x)" m rule: flat_map_insert.induct)
  case 1
  then show ?case by simp
next
  case (2 k' v m)
  from "2.prems" have inv: "flat_map_inv m"
    by (simp add: flat_map_inv_Cons)
  show ?case
  proof (cases "k = k'")
    case True
    then show ?thesis by simp
  next
    case False
    show ?thesis
    proof (cases "k < k'")
      case True
      with "2.prems" have "map_of ((k', v) # m) k = None"
        by (rule flat_map_inv_less_notin)
      with True False show ?thesis by auto
    next
      case ge: False
      with False "2.hyps" [OF False ge inv] show ?thesis
        by auto
    qed
  qed
qed

lemma foldl_flat_map_insert:
  "flat_map_inv m \<Longrightarrow>
     flat_map_inv (foldl (\<lambda>m e. flat_map_insert e m) m xs) \<and>
     map_of (foldl (\<lambda>m e. flat_map_insert e m) m xs) j =
       (case map_of m j of Some v \<Rightarrow> Some v | None \<Rightarrow> map_of xs j)"
proof (induction xs arbitrary: m)
  case Nil
  then show ?case by (simp split: option.splits)
next
  case (Cons e xs)
  obtain k x where e: "e = (k, x)" by (cases e)
  from Cons.prems have inv': "flat_map_inv (flat_map_insert e m)"
    by (rule flat_map_insert_inv)
  from Cons.IH [OF inv'] Cons.prems show ?case
    by (auto simp: e map_of_flat_map_insert split: option.splits)
qed

lemma flat_map_of_range_inv: "flat_map_inv (flat_map_of_range xs)"
  using foldl_flat_map_insert [of "[]" xs] by (simp add: flat_map_of_range_def flat_map_inv_def)

lemma map_of_flat_map_of_range: "map_of (flat_map_of_range xs) = map_of xs"
proof
  fix j
  show "map_of (flat_map_of_range xs) j = map_of xs j"
    using foldl_flat_map_insert [of "[]" xs j] by (simp add: flat_map_of_range_def flat_map_inv_def)
qed

text \<open>The range constructor leaves a range that is already a flat map as it is.\<close>

lemma flat_map_insert_append:
  "\<forall>j \<in> set (map fst m). j < k \<Longrightarrow> flat_map_insert (k, x) m = m @ [(k, x)]"
  by (induction m) auto

lemma foldl_flat_map_insert_sorted:
  "sorted_wrt (<) (map fst m @ map fst xs) \<Longrightarrow>
     foldl (\<lambda>m e. flat_map_insert e m) m xs = m @ xs"
proof (induction xs arbitrary: m)
  case Nil
  then show ?case by simp
next
  case (Cons e xs)
  obtain k x where e: "e = (k, x)" by (cases e)
  from Cons.prems have less: "\<forall>j \<in> set (map fst m). j < k"
    by (auto simp: e sorted_wrt_append)
  from Cons.prems have "sorted_wrt (<) (map fst (m @ [e]) @ map fst xs)"
    by simp
  from Cons.IH [OF this] show ?case
    by (simp add: e flat_map_insert_append [OF less])
qed

lemma flat_map_of_range_sorted: "flat_map_inv xs \<Longrightarrow> flat_map_of_range xs = xs"
  using foldl_flat_map_insert_sorted [of "[]" xs]
  by (simp add: flat_map_of_range_def flat_map_inv_def)

section \<open>Properties of the quantized serialization\<close>

lemma float_to_uint16_in_range:
  "0 \<le> y \<Longrightarrow> y < 65536 \<Longrightarrow> float_to_uint16 y = Some (word_of_int \<lfloor>y\<rfloor>)"
  by (simp add: float_to_uint16_def Let_def floor_less_iff)

lemma save_loop_eq:
  "sorted_wrt (<) (map fst counter @ map fst p) \<Longrightarrow>
   \<forall>(k, x) \<in> set p. 0 \<le> to_float fp (x * 65535) \<and> to_float fp (x * 65535) < 65536 \<Longrightarrow>
     save_loop fp p counter =
       Some (counter @ map (\<lambda>(k, x). (k, word_of_int \<lfloor>to_float fp (x * 65535)\<rfloor>)) p)"
proof (induction fp p counter rule: save_loop.induct)
  case (1 fp counter)
  then show ?case by simp
next
  case (2 fp k x p counter)
  let ?c = "word_of_int \<lfloor>to_float fp (x * 65535)\<rfloor> :: uint16_t"
  from "2.prems"(2) have conv: "float_to_uint16 (to_float fp (x * 65535)) = Some ?c"
    by (simp add: float_to_uint16_in_range)
  from "2.prems"(1) have less: "\<forall>j \<in> set (map fst counter). j < k"
    by (auto simp: sorted_wrt_append)
  have app: "flat_map_modify k (\<lambda>_. ?c) counter = counter @ [(k, ?c)]"
    by (rule flat_map_modify_append [OF less])
  from "2.prems"(1) have s: "sorted_wrt (<) (map fst (counter @ [(k, ?c)]) @ map fst p)"
    by simp
  from "2.prems"(2) have r: "\<forall>(k, x) \<in> set p.
      0 \<le> to_float fp (x * 65535) \<and> to_float fp (x * 65535) < 65536"
    by simp
  from "2.IH" [OF conv] s r show ?case
    by (simp add: conv app)
qed

lemma load_sum_exact:
  "\<forall>n \<le> N. to_float fp (real n) = real n \<Longrightarrow>
   a + sum_list (map (\<lambda>(k, c). unat c) counter) \<le> N \<Longrightarrow>
     load_sum fp counter (real a) = real (a + sum_list (map (\<lambda>(k, c). unat c) counter))"
proof (induction counter arbitrary: a)
  case Nil
  then show ?case by simp
next
  case (Cons e counter)
  obtain k c where e: "e = (k, c)" by (cases e)
  from Cons.prems have le: "a + unat c \<le> N"
    and le': "(a + unat c) + sum_list (map (\<lambda>(k, c). unat c) counter) \<le> N"
    by (simp_all add: e)
  from Cons.prems(1) le have "to_float fp (real (a + unat c)) = real (a + unat c)"
    by blast
  then have "to_float fp (real a + real (unat c)) = real (a + unat c)"
    by simp
  with Cons.IH [OF Cons.prems(1) le'] show ?case
    by (simp add: e add.assoc)
qed

lemma load_divide_eq:
  "sm \<noteq> 0 \<Longrightarrow>
     load_divide fp sm val = Some (map (\<lambda>(k, v). (k, to_float fp (v / sm))) val)"
  by (induction fp sm val rule: load_divide.induct) simp_all

lemma VertexData_load_quantized:
  assumes "flat_map_inv counter" and "load_sum fp counter 0 \<noteq> 0"
  shows "VertexData_load fp INIT_GRAPH (Quantized counter) d =
     Some (d\<lparr>ppr := map (\<lambda>(k, c). (k, to_float fp (real (unat c) / load_sum fp counter 0))) counter\<rparr>)"
proof -
  have "flat_map_inv (map (\<lambda>(k, c). (k, real (unat c))) counter)"
    using assms(1) by (simp add: flat_map_inv_def split_def comp_def)
  then have "flat_map_of_range (map (\<lambda>(k, c). (k, real (unat c))) counter) =
      map (\<lambda>(k, c). (k, real (unat c))) counter"
    by (rule flat_map_of_range_sorted)
  then show ?thesis
    using assms(2)
    by (simp add: VertexData_load_def Let_def load_divide_eq split_def comp_def)
qed

lemma rounded_sum_error:
  fixes f :: "real \<Rightarrow> real"
  assumes "\<forall>x. \<bar>f x - x\<bar> \<le> u * \<bar>x\<bar>" and "\<forall>x \<in> set xs. 0 \<le> x"
  shows "\<bar>sum_list (map f xs) - sum_list xs\<bar> \<le> u * sum_list xs"
  using assms(2)
proof (induction xs)
  case Nil
  then show ?case by simp
next
  case (Cons x xs)
  from Cons.prems have x: "0 \<le> x" and xs: "\<forall>x \<in> set xs. 0 \<le> x"
    by simp_all
  from assms(1) x have "\<bar>f x - x\<bar> \<le> u * x"
    by (metis abs_of_nonneg)
  with Cons.IH [OF xs] show ?case
    by (simp add: algebra_simps)
qed

lemma sum_list_quotients:
  "sum_list (map (\<lambda>(k, c). real (unat c) / S) (counter :: map_t)) =
     real (sum_list (map (\<lambda>(k, c). unat c) counter)) / S"
  by (induction counter) (auto simp: add_divide_distrib)

text \<open>
  Claim C6, as amended. In the phase \<open>INIT_GRAPH\<close>, \<open>save\<close> writes, for every entry
  \<open>(k, x)\<close> of \<open>ppr\<close>, the 16-bit integer that the \<open>float\<close> product \<open>x * 65535\<close>
  truncates to (stated here for products from 0 up to, but not including, 65536).
  \<open>load\<close> of stored integers \<open>w_1..w_k\<close> whose sum \<open>S\<close> is positive and at most
  \<open>2^24\<close> (the integers up to there being \<open>float\<close> values, the \<open>float\<close> sum is \<open>S\<close>
  itself) sets \<open>ppr\<close> to the same keys with the weights \<open>w_i / S\<close> rounded to \<open>float\<close>;
  with \<open>u\<close> the relative error of the rounding, each weight is within \<open>u * w_i / S\<close>
  of \<open>w_i / S\<close>, and the weights sum to 1 within \<open>u\<close>.
\<close>

theorem quantized_round_trip:
  assumes "flat_map_inv (ppr d)"
    and "\<forall>(k, x) \<in> set (ppr d).
           0 \<le> to_float fp (x * 65535) \<and> to_float fp (x * 65535) < 65536"
    and "flat_map_inv counter"
    and "S = sum_list (map (\<lambda>(k, c). unat c) counter)"
    and "0 < S"
    and "S \<le> 2 ^ 24"
    and "\<forall>n \<le> 2 ^ 24. to_float fp (real n) = real n"
    and "\<forall>x. \<bar>to_float fp x - x\<bar> \<le> u * \<bar>x\<bar>"
  shows "VertexData_save fp INIT_GRAPH d =
           Some (Quantized
             (map (\<lambda>(k, x). (k, word_of_int \<lfloor>to_float fp (x * 65535)\<rfloor>)) (ppr d))) \<and>
         VertexData_load fp INIT_GRAPH (Quantized counter) d' =
           Some (d'\<lparr>ppr :=
             map (\<lambda>(k, c). (k, to_float fp (real (unat c) / real S))) counter\<rparr>) \<and>
         (\<forall>(k, c) \<in> set counter.
            \<bar>to_float fp (real (unat c) / real S) - real (unat c) / real S\<bar>
              \<le> u * (real (unat c) / real S)) \<and>
         \<bar>sum_list (map (\<lambda>(k, c). to_float fp (real (unat c) / real S)) counter) - 1\<bar> \<le> u"
proof -
  have save: "VertexData_save fp INIT_GRAPH d =
      Some (Quantized (map (\<lambda>(k, x). (k, word_of_int \<lfloor>to_float fp (x * 65535)\<rfloor>)) (ppr d)))"
    using save_loop_eq [of "[]" "ppr d" fp] assms(1,2)
    by (simp add: VertexData_save_def flat_map_inv_def)
  have "0 + sum_list (map (\<lambda>(k, c). unat c) counter) \<le> 2 ^ 24"
    using assms(4,6) by simp
  from load_sum_exact [OF assms(7) this] have sm: "load_sum fp counter 0 = real S"
    by (simp add: assms(4))
  with assms(5) have "load_sum fp counter 0 \<noteq> 0"
    by simp
  from VertexData_load_quantized [OF assms(3) this]
  have load: "VertexData_load fp INIT_GRAPH (Quantized counter) d' =
      Some (d'\<lparr>ppr := map (\<lambda>(k, c). (k, to_float fp (real (unat c) / real S))) counter\<rparr>)"
    by (simp add: sm del: of_nat_unat)
  have each: "\<bar>to_float fp (real (unat c) / real S) - real (unat c) / real S\<bar>
      \<le> u * (real (unat c) / real S)" for c :: uint16_t
  proof -
    have "0 \<le> real (unat c) / real S"
      by (rule divide_nonneg_nonneg) (rule of_nat_0_le_iff)+
    then have "\<bar>real (unat c) / real S\<bar> = real (unat c) / real S"
      by (rule abs_of_nonneg)
    with assms(8) [rule_format, of "real (unat c) / real S"] show ?thesis
      by (simp only:)
  qed
  let ?xs = "map (\<lambda>(k, c). real (unat c) / real S) counter"
  have nonneg: "\<forall>x \<in> set ?xs. 0 \<le> x"
    by (auto simp del: of_nat_unat)
  have one: "sum_list ?xs = 1"
    using assms(5) by (simp add: sum_list_quotients assms(4) [symmetric] del: of_nat_unat)
  have meq: "map (to_float fp) ?xs =
      map (\<lambda>(k, c). to_float fp (real (unat c) / real S)) counter"
    by (simp add: split_def comp_def del: of_nat_unat)
  have "\<bar>sum_list (map (to_float fp) ?xs) - sum_list ?xs\<bar> \<le> u * sum_list ?xs"
    by (rule rounded_sum_error [OF assms(8) nonneg])
  then have total:
    "\<bar>sum_list (map (\<lambda>(k, c). to_float fp (real (unat c) / real S)) counter) - 1\<bar> \<le> u"
    unfolding one meq by (simp del: of_nat_unat)
  from save load each total show ?thesis
    by (auto simp del: of_nat_unat)
qed

theorem quantized_round_trip_witness:
  "VertexData_save ieee INIT_GRAPH
     \<lparr>ppr = [(2, 1 / 2), (5, 1 / 4), (7, 1 / 4)], flow = [], residual = []\<rparr> =
     Some (Quantized [(2, 32767), (5, 16383), (7, 16383)]) \<and>
   VertexData_load ieee INIT_GRAPH (Quantized [(2, 32767), (5, 16383), (7, 16383)])
     \<lparr>ppr = [], flow = [], residual = []\<rparr> =
     Some \<lparr>ppr = [(2, 65537 / 2 ^ 17), (5, 65535 / 2 ^ 18), (7, 65535 / 2 ^ 18)],
           flow = [], residual = []\<rparr> \<and>
   \<bar>sum_list (map snd [(2 :: nat, 65537 / 2 ^ 17 :: real), (5, 65535 / 2 ^ 18),
       (7, 65535 / 2 ^ 18)]) - 1\<bar> \<le> 1 / 2 ^ 24"
proof -
  let ?d = "\<lparr>ppr = [(2, 1 / 2), (5, 1 / 4), (7, 1 / 4)], flow = [], residual = []\<rparr>"
  let ?counter = "[(2, 32767), (5, 16383), (7, 16383)] :: map_t"
  have s1: "to_float ieee x = 65535 / 2" if "x = 65535 / 2" for x
    unfolding that using to_float_ieee_dyadic [of 65535 1] by simp
  have s2: "to_float ieee x = 65535 / 4" if "x = 65535 / 4" for x
    unfolding that using to_float_ieee_dyadic [of 65535 2] by simp
  have w1: "to_float ieee x = 65537 / 2 ^ 17" if "x = 32767 / 65533" for x
    unfolding that to_float_ieee
    by (subst round_to_precision_eval [where e = "-1"])
      (simp_all add: pow2_def round_half_even_def)
  have w2: "to_float ieee x = 65535 / 2 ^ 18" if "x = 16383 / 65533" for x
    unfolding that to_float_ieee
    by (subst round_to_precision_eval [where e = "-3"])
      (simp_all add: pow2_def round_half_even_def)
  have a: "flat_map_inv (ppr ?d)" and c: "flat_map_inv ?counter"
    by (simp_all add: flat_map_inv_def)
  have b: "\<forall>(k, x) \<in> set (ppr ?d).
      0 \<le> to_float ieee (x * 65535) \<and> to_float ieee (x * 65535) < 65536"
    by (simp add: s1 s2)
  have S: "65533 = sum_list (map (\<lambda>(k, c). unat c) ?counter)"
    by simp
  from quantized_round_trip [OF a b c S _ _ ieee_exact_nat ieee_relative_error,
      of "\<lparr>ppr = [], flow = [], residual = []\<rparr>"]
  show ?thesis
    by (simp add: s1 s2 w1 w2)
qed

text \<open>
  A sum of stored integers above \<open>2^24\<close> is beyond what the \<open>float\<close> sum holds
  exactly: from \<open>2^24\<close> on, adding 65535 to the sum rounds up by one.
\<close>

lemma load_sum_constant:
  "load_sum fp (map (\<lambda>i. (i, c)) xs) sm =
     ((\<lambda>s. to_float fp (s + real (unat c))) ^^ length xs) sm"
proof (induction xs arbitrary: sm)
  case Nil
  then show ?case by simp
next
  case (Cons i xs)
  let ?f = "\<lambda>s. to_float fp (s + real (unat c))"
  have "load_sum fp (map (\<lambda>i. (i, c)) (i # xs)) sm = load_sum fp (map (\<lambda>i. (i, c)) xs) (?f sm)"
    by (simp del: of_nat_unat)
  also have "\<dots> = (?f ^^ length xs) (?f sm)"
    by (rule Cons.IH)
  also have "\<dots> = (?f ^^ Suc (length xs)) sm"
    by (simp only: funpow_Suc_right o_apply)
  finally show ?case
    by (simp only: length_Cons)
qed

lemma float_sum_small:
  "n \<le> 256 \<Longrightarrow> ((\<lambda>s. to_float ieee (s + 65535)) ^^ n) 0 = real (65535 * n)"
proof (induction n)
  case 0
  then show ?case by simp
next
  case (Suc n)
  then have IH: "((\<lambda>s. to_float ieee (s + 65535)) ^^ n) 0 = real (65535 * n)"
    by simp
  have "real (65535 * n) + 65535 = real (65535 * Suc n)"
    by simp
  moreover have "to_float ieee (real (65535 * Suc n)) = real (65535 * Suc n)"
    using Suc.prems by (intro to_float_ieee_nat) simp_all
  ultimately show ?case
    by (simp only: funpow.simps o_apply IH)
qed

lemma float_sum_large:
  "256 \<le> n \<Longrightarrow> n \<le> 511 \<Longrightarrow>
     ((\<lambda>s. to_float ieee (s + 65535)) ^^ n) 0 = real (65536 * n - 256)"
proof (induction n rule: nat_induct_at_least)
  case base
  from float_sum_small [of 256] show ?case by simp
next
  case (Suc n)
  then have IH: "((\<lambda>s. to_float ieee (s + 65535)) ^^ n) 0 = real (65536 * n - 256)"
    by simp
  define j where "j = 16384 * n + 16319"
  have eq: "real (65536 * n - 256) + 65535 = real (4 * j + 3)"
    using Suc.hyps by (simp add: j_def of_nat_diff)
  have res: "real (4 * j + 4) = real (65536 * Suc n - 256)"
    by (simp add: j_def)
  have "to_float ieee (real (4 * j + 3)) = real (4 * j + 4)"
    using Suc.hyps Suc.prems by (intro to_float_ieee_tie_up) (simp_all add: j_def)
  then show ?case
    by (simp only: funpow.simps o_apply IH eq res)
qed

lemma VertexData_save_ones:
  assumes "sorted_wrt (<) xs"
  shows "VertexData_save ieee INIT_GRAPH \<lparr>ppr = map (\<lambda>i. (i, 1)) xs, flow = f, residual = r\<rparr> =
     Some (Quantized (map (\<lambda>i. (i, 65535)) xs))"
proof -
  have one: "to_float ieee 65535 = 65535"
    by (rule to_float_ieee_nat) simp_all
  have s: "sorted_wrt (<) (map fst ([] :: map_t) @ map fst (map (\<lambda>i. (i, 1 :: real)) xs))"
    using assms by (simp add: comp_def)
  have "save_loop ieee (map (\<lambda>i. (i, 1)) xs) [] =
      Some ([] @ map (\<lambda>(k, x). (k, word_of_int \<lfloor>to_float ieee (x * 65535)\<rfloor>))
        (map (\<lambda>i. (i, 1)) xs))"
    by (rule save_loop_eq [OF s]) (simp add: one)
  then show ?thesis
    by (simp add: VertexData_save_def comp_def one)
qed

lemma VertexData_load_full:
  assumes "sorted_wrt (<) xs" and "length xs = 300"
  shows "VertexData_load ieee INIT_GRAPH (Quantized (map (\<lambda>i. (i, 65535)) xs)) d =
     Some (d\<lparr>ppr := map (\<lambda>i. (i, 7158263 / 2 ^ 31)) xs\<rparr>)"
proof -
  let ?counter = "map (\<lambda>i. (i, 65535)) xs :: map_t"
  have u: "real (unat (65535 :: uint16_t)) = 65535"
    by simp
  have inv: "flat_map_inv ?counter"
    using assms(1) by (simp add: flat_map_inv_def comp_def)
  have sm: "load_sum ieee ?counter 0 = 19660544"
    using float_sum_large [of 300]
    by (simp only: load_sum_constant u assms(2))
  have q: "to_float ieee (65535 / 19660544) = 7158263 / 2 ^ 31"
    unfolding to_float_ieee
    by (subst round_to_precision_eval [where e = "-9"])
      (simp_all add: pow2_def round_half_even_def)
  have "load_sum ieee ?counter 0 \<noteq> 0"
    by (simp only: sm)
  from VertexData_load_quantized [OF inv this, of d] show ?thesis
    by (simp only: sm map_map comp_def prod.case u q)
qed

text \<open>
  The claim C6 as stated has the weights equal to \<open>w_i / S\<close> and summing to 1 within
  the floating-point epsilon for any stored integers with \<open>S > 0\<close>. A \<open>ppr\<close> of 300
  entries of weight 1 is saved as 300 stored integers 65535, with \<open>S = 19660500\<close>;
  \<open>load\<close> sums them to the \<open>float\<close> 19660544, every weight is
  \<open>7158263 / 2^31\<close>, further from \<open>65535 / S\<close> than 16 times the epsilon \<open>2^-23\<close> of
  it, and the sum of the weights is below 1 by more than 16 times that epsilon.
\<close>

theorem quantized_sum_counterexample:
  "VertexData_save ieee INIT_GRAPH
     \<lparr>ppr = map (\<lambda>i. (i, 1)) [0..<300], flow = [], residual = []\<rparr> =
     Some (Quantized (map (\<lambda>i. (i, 65535)) [0..<300])) \<and>
   VertexData_load ieee INIT_GRAPH (Quantized (map (\<lambda>i. (i, 65535)) [0..<300]))
     \<lparr>ppr = [], flow = [], residual = []\<rparr> =
     Some \<lparr>ppr = map (\<lambda>i. (i, 7158263 / 2 ^ 31)) [0..<300], flow = [], residual = []\<rparr> \<and>
   sum_list (map (\<lambda>(k, c). unat c) (map (\<lambda>i. (i, 65535 :: uint16_t)) [0..<300])) = 19660500 \<and>
   \<bar>7158263 / 2 ^ 31 - 65535 / 19660500\<bar> > 16 / 2 ^ 23 * (65535 / 19660500 :: real) \<and>
   \<bar>sum_list (map snd (map (\<lambda>i. (i, 7158263 / 2 ^ 31 :: real)) [0..<300])) - 1\<bar> > 16 / 2 ^ 23"
proof -
  have a: "sorted_wrt (<) [0..<300]" and b: "length [0..<300] = 300"
    by simp_all
  have c: "sum_list (map (\<lambda>(k, c). unat c) (map (\<lambda>i. (i, 65535 :: uint16_t)) xs)) =
      65535 * length xs" for xs :: "nat list"
    by (induction xs) simp_all
  have d: "sum_list (map snd (map (\<lambda>i. (i, q)) xs)) = real (length xs) * q"
    for xs :: "nat list" and q :: real
    by (induction xs) (simp_all add: algebra_simps)
  have e: "\<bar>7158263 / 2 ^ 31 - 65535 / 19660500\<bar> > 16 / 2 ^ 23 * (65535 / 19660500 :: real)"
    by simp
  have f: "\<bar>real 300 * (7158263 / 2 ^ 31) - 1\<bar> > 16 / 2 ^ 23"
    by simp
  show ?thesis
    using VertexData_save_ones [OF a, of "[]" "[]"]
      VertexData_load_full [OF a b, of "\<lparr>ppr = [], flow = [], residual = []\<rparr>"] e f
    by (simp only: c d b) simp
qed

section \<open>Properties of the decomposition and collection programs\<close>

text \<open>
  Claim C5. At round 0, \<open>init\<close> gives the vertex a self-entry of weight 1 in the
  transient flow when no source set is configured, or when one is and the vertex is
  in it (a fresh program then holds exactly that entry); a vertex outside a
  configured source set is not seeded, its program stays as it was. At every other
  round the transient flow becomes the delivered message, whatever it held before.
\<close>

theorem init_seeds_flow:
  assumes "flat_map_inv (prog_flow prog)"
  shows "(iteration = 0 \<and> (sources g = None \<or> (\<exists>s. sources g = Some s \<and> vid vertex \<in> s)) \<longrightarrow>
            map_of (prog_flow (DecompositionProgram_init g iteration vertex msg prog)) =
              (map_of (prog_flow prog))(vid vertex \<mapsto> 1) \<and>
            (prog_flow prog = [] \<longrightarrow>
               prog_flow (DecompositionProgram_init g iteration vertex msg prog) = [(vid vertex, 1)])) \<and>
         (iteration = 0 \<and> (\<exists>s. sources g = Some s \<and> vid vertex \<notin> s) \<longrightarrow>
            DecompositionProgram_init g iteration vertex msg prog = prog) \<and>
         (iteration \<noteq> 0 \<longrightarrow>
            prog_flow (DecompositionProgram_init g iteration vertex msg prog) = msg)"
  using assms
  by (auto simp: DecompositionProgram_init_def map_of_flat_map_modify)

theorem init_seeds_flow_witness:
  "prog_flow (DecompositionProgram_init
      \<lparr>threshold = 0, niters = 10, no_index = False, sources = Some {0, 3}\<rparr> 0
      \<lparr>vid = 3, num_out_edges = 1, data = \<lparr>ppr = [], flow = [], residual = []\<rparr>\<rparr>
      [(7, 1 / 2)] \<lparr>prog_flow = []\<rparr>) = [(3, 1)] \<and>
   DecompositionProgram_init
      \<lparr>threshold = 0, niters = 10, no_index = False, sources = Some {0, 3}\<rparr> 0
      \<lparr>vid = 1, num_out_edges = 1, data = \<lparr>ppr = [], flow = [], residual = []\<rparr>\<rparr>
      [(7, 1 / 2)] \<lparr>prog_flow = []\<rparr> = \<lparr>prog_flow = []\<rparr> \<and>
   prog_flow (DecompositionProgram_init
      \<lparr>threshold = 0, niters = 10, no_index = False, sources = None\<rparr> 0
      \<lparr>vid = 1, num_out_edges = 1, data = \<lparr>ppr = [], flow = [], residual = []\<rparr>\<rparr>
      [(7, 1 / 2)] \<lparr>prog_flow = []\<rparr>) = [(1, 1)] \<and>
   prog_flow (DecompositionProgram_init
      \<lparr>threshold = 0, niters = 10, no_index = False, sources = Some {0, 3}\<rparr> 2
      \<lparr>vid = 1, num_out_edges = 1, data = \<lparr>ppr = [], flow = [], residual = []\<rparr>\<rparr>
      [(7, 1 / 2)] \<lparr>prog_flow = [(4, 1)]\<rparr>) = [(7, 1 / 2)]"
proof -
  have e: "flat_map_inv (prog_flow \<lparr>prog_flow = []\<rparr>)"
    and f: "flat_map_inv (prog_flow \<lparr>prog_flow = [(4, 1)]\<rparr>)"
    by (simp_all add: flat_map_inv_def)
  show ?thesis
    using init_seeds_flow [OF e, where iteration = 0
        and g = "\<lparr>threshold = 0, niters = 10, no_index = False, sources = Some {0, 3}\<rparr>"
        and vertex = "\<lparr>vid = 3, num_out_edges = 1, data = \<lparr>ppr = [], flow = [], residual = []\<rparr>\<rparr>"
        and msg = "[(7, 1 / 2)]"]
      init_seeds_flow [OF e, where iteration = 0
        and g = "\<lparr>threshold = 0, niters = 10, no_index = False, sources = Some {0, 3}\<rparr>"
        and vertex = "\<lparr>vid = 1, num_out_edges = 1, data = \<lparr>ppr = [], flow = [], residual = []\<rparr>\<rparr>"
        and msg = "[(7, 1 / 2)]"]
      init_seeds_flow [OF e, where iteration = 0
        and g = "\<lparr>threshold = 0, niters = 10, no_index = False, sources = None\<rparr>"
        and vertex = "\<lparr>vid = 1, num_out_edges = 1, data = \<lparr>ppr = [], flow = [], residual = []\<rparr>\<rparr>"
        and msg = "[(7, 1 / 2)]"]
      init_seeds_flow [OF f, where iteration = 2
        and g = "\<lparr>threshold = 0, niters = 10, no_index = False, sources = Some {0, 3}\<rparr>"
        and vertex = "\<lparr>vid = 1, num_out_edges = 1, data = \<lparr>ppr = [], flow = [], residual = []\<rparr>\<rparr>"
        and msg = "[(7, 1 / 2)]"]
    by simp
qed

text \<open>
  Claim C8. On the last round (\<open>iteration = niters - 1\<close>), \<open>apply\<close> adds the whole
  transient flow into the vertex's \<open>flow\<close> field, key by key (each sum a \<open>float\<close>
  sum), clears the transient flow, so that \<open>scatter_edges\<close> selects no edge, and
  leaves \<open>ppr\<close> and \<open>residual\<close> (and the vertex's id and degree) as they were.
\<close>

theorem apply_last_round:
  assumes "iteration = niters g - 1"
    and "flat_map_inv (flow (data vertex))"
    and "flat_map_inv (prog_flow prog)"
  shows "flow (data (fst (DecompositionProgram_apply fp g iteration vertex prog))) =
           vec_add fp (flow (data vertex)) (prog_flow prog) \<and>
         (\<forall>k. map_of (flow (data (fst (DecompositionProgram_apply fp g iteration vertex prog)))) k =
            (case map_of (prog_flow prog) k of
               None \<Rightarrow> map_of (flow (data vertex)) k
             | Some w \<Rightarrow> Some (to_float fp (weight_of (flow (data vertex)) k + w)))) \<and>
         prog_flow (snd (DecompositionProgram_apply fp g iteration vertex prog)) = [] \<and>
         DecompositionProgram_scatter_edges (snd (DecompositionProgram_apply fp g iteration vertex prog)) =
           NO_EDGES \<and>
         ppr (data (fst (DecompositionProgram_apply fp g iteration vertex prog))) = ppr (data vertex) \<and>
         residual (data (fst (DecompositionProgram_apply fp g iteration vertex prog))) =
           residual (data vertex) \<and>
         vid (fst (DecompositionProgram_apply fp g iteration vertex prog)) = vid vertex \<and>
         num_out_edges (fst (DecompositionProgram_apply fp g iteration vertex prog)) =
           num_out_edges vertex"
  using assms
  by (simp add: DecompositionProgram_apply_def DecompositionProgram_scatter_edges_def
      map_of_vec_add flat_map_inv_distinct)

theorem apply_last_round_witness:
  "DecompositionProgram_apply ieee
      \<lparr>threshold = 0, niters = 10, no_index = False, sources = None\<rparr> 9
      \<lparr>vid = 1, num_out_edges = 2,
        data = \<lparr>ppr = [(5, 1)], flow = [(1, 1 / 2)], residual = [(0, 1 / 4)]\<rparr>\<rparr>
      \<lparr>prog_flow = [(0, 1 / 4), (1, 1 / 4)]\<rparr> =
    (\<lparr>vid = 1, num_out_edges = 2,
        data = \<lparr>ppr = [(5, 1)], flow = [(0, 1 / 4), (1, 3 / 4)], residual = [(0, 1 / 4)]\<rparr>\<rparr>,
     \<lparr>prog_flow = []\<rparr>)"
proof -
  let ?g = "\<lparr>threshold = 0, niters = 10, no_index = False, sources = None\<rparr>"
  let ?v = "\<lparr>vid = 1, num_out_edges = 2,
        data = \<lparr>ppr = [(5, 1)], flow = [(1, 1 / 2)], residual = [(0, 1 / 4)]\<rparr>\<rparr>"
  let ?p = "\<lparr>prog_flow = [(0, 1 / 4), (1, 1 / 4)]\<rparr>"
  have a: "(9 :: int) = niters ?g - 1" by simp
  have b: "flat_map_inv (flow (data ?v))" by (simp add: flat_map_inv_def)
  have c: "flat_map_inv (prog_flow ?p)" by (simp add: flat_map_inv_def)
  have r1: "to_float ieee (1 / 4) = 1 / 4" and r2: "to_float ieee (3 / 4) = 3 / 4"
    using to_float_ieee_dyadic [of 1 2] to_float_ieee_dyadic [of 3 2] by simp_all
  have "flow (data (fst (DecompositionProgram_apply ieee ?g 9 ?v ?p))) = [(0, 1 / 4), (1, 3 / 4)]"
    using apply_last_round [OF a b c, of ieee] by (simp add: r1 r2)
  then show ?thesis
    by (simp add: DecompositionProgram_apply_def)
qed

lemma apply_loop_new_flow:
  "sorted_wrt (<) (map fst new_flow @ map fst fl) \<Longrightarrow>
     snd (apply_loop fp c th fl res new_flow) =
       new_flow @ map (\<lambda>(k, w). (k, to_float fp (c * w)))
                    (filter (\<lambda>(k, w). to_float fp (c * w) > th) fl)"
proof (induction fp c th fl res new_flow rule: apply_loop.induct)
  case (1 fp c th res new_flow)
  then show ?case by simp
next
  case (2 fp c th k w fl res new_flow)
  let ?res' = "flat_map_modify k (\<lambda>v. to_float fp (v + to_float fp (RESET_PROB fp * w))) res"
  let ?t = "to_float fp (c * w)"
  from "2.prems" have below: "\<forall>j \<in> set (map fst new_flow). j < k"
    by (simp add: sorted_wrt_append)
  show ?case
  proof (cases "?t > th")
    case True
    have app: "flat_map_modify k (\<lambda>_. ?t) new_flow = new_flow @ [(k, ?t)]"
      using below by (rule flat_map_modify_append)
    from "2.prems" have "sorted_wrt (<) (map fst (new_flow @ [(k, ?t)]) @ map fst fl)"
      by simp
    then have "snd (apply_loop fp c th fl ?res' (new_flow @ [(k, ?t)])) =
        (new_flow @ [(k, ?t)]) @ map (\<lambda>(k, w). (k, to_float fp (c * w)))
                                   (filter (\<lambda>(k, w). to_float fp (c * w) > th) fl)"
      using "2.IH" [of ?res' ?t "new_flow @ [(k, ?t)]"] True app by simp
    with True app show ?thesis by simp
  next
    case False
    from "2.prems" have "sorted_wrt (<) (map fst new_flow @ map fst fl)"
      by (simp add: sorted_wrt_append)
    then have "snd (apply_loop fp c th fl ?res' new_flow) =
        new_flow @ map (\<lambda>(k, w). (k, to_float fp (c * w)))
                     (filter (\<lambda>(k, w). to_float fp (c * w) > th) fl)"
      using "2.IH" [of ?res' ?t new_flow] False by simp
    with False show ?thesis by simp
  qed
qed

lemma apply_loop_residual:
  "flat_map_inv res \<Longrightarrow> distinct (map fst fl) \<Longrightarrow>
     flat_map_inv (fst (apply_loop fp c th fl res new_flow)) \<and>
     map_of (fst (apply_loop fp c th fl res new_flow)) j =
       (case map_of fl j of
          None \<Rightarrow> map_of res j
        | Some w \<Rightarrow> Some (to_float fp (weight_of res j + to_float fp (RESET_PROB fp * w))))"
proof (induction fp c th fl res new_flow rule: apply_loop.induct)
  case (1 fp c th res new_flow)
  then show ?case by simp
next
  case (2 fp c th k w fl res new_flow)
  let ?res' = "flat_map_modify k (\<lambda>v. to_float fp (v + to_float fp (RESET_PROB fp * w))) res"
  let ?t = "to_float fp (c * w)"
  let ?nf' = "if ?t > th then flat_map_modify k (\<lambda>_. ?t) new_flow else new_flow"
  from "2.prems" have inv': "flat_map_inv ?res'" and d: "distinct (map fst fl)"
    and notin: "map_of fl k = None"
    by (simp_all add: flat_map_modify_inv map_of_eq_None_iff)
  have IH: "flat_map_inv (fst (apply_loop fp c th fl ?res' ?nf')) \<and>
      map_of (fst (apply_loop fp c th fl ?res' ?nf')) j =
        (case map_of fl j of None \<Rightarrow> map_of ?res' j
         | Some w \<Rightarrow> Some (to_float fp (weight_of ?res' j + to_float fp (RESET_PROB fp * w))))"
    by (rule "2.IH" [OF refl refl refl inv' d])
  have step: "apply_loop fp c th ((k, w) # fl) res new_flow = apply_loop fp c th fl ?res' ?nf'"
    by (simp add: Let_def)
  show ?case
  proof (cases "j = k")
    case True
    with IH notin "2.prems"(1) show ?thesis
      unfolding step by (simp add: map_of_flat_map_modify)
  next
    case False
    with IH "2.prems"(1) show ?thesis
      unfolding step
      by (simp add: map_of_flat_map_modify weight_of_flat_map_modify split: option.splits)
  qed
qed

lemma map_of_map_filter:
  "distinct (map fst fl) \<Longrightarrow>
     map_of (map (\<lambda>(k, w). (k, f w)) (filter (\<lambda>(k, w). P w) fl)) j =
       (case map_of fl j of None \<Rightarrow> None | Some w \<Rightarrow> if P w then Some (f w) else None)"
proof (induction fl)
  case Nil
  then show ?case by simp
next
  case (Cons e fl)
  obtain k w where e: "e = (k, w)" by (cases e)
  from Cons.prems have notin: "map_of fl k = None" and d: "distinct (map fst fl)"
    by (simp_all add: e map_of_eq_None_iff)
  from Cons.IH [OF d] notin show ?case
    by (auto simp: e split: option.splits)
qed

text \<open>The constants of \<open>apply\<close> in single precision: \<open>0.15f\<close> and \<open>1 - 0.15f\<close>.\<close>

lemma RESET_PROB_ieee: "RESET_PROB ieee = 5033165 / 2 ^ 25"
proof -
  have d: "round_to_precision 53 0.15 = 5404319552844595 / 2 ^ 55"
    by (subst round_to_precision_eval [where e = "-3"])
      (simp_all add: pow2_def round_half_even_def)
  have f: "round_to_precision 24 (5404319552844595 / 2 ^ 55) = 5033165 / 2 ^ 25"
    by (subst round_to_precision_eval [where e = "-3"])
      (simp_all add: pow2_def round_half_even_def)
  show ?thesis
    by (simp only: RESET_PROB_def to_float_ieee to_double_ieee d f)
qed

lemma one_minus_RESET_PROB_ieee:
  assumes "x = 1 - 5033165 / 2 ^ 25"
  shows "to_float ieee x = 7130317 / 2 ^ 23"
  unfolding assms to_float_ieee
  by (subst round_to_precision_eval [where e = "-1"])
    (simp_all add: pow2_def round_half_even_def)

lemma to_float_ieee_c:
  assumes "x = 7130317 / 2 ^ 23"
  shows "to_float ieee x = 7130317 / 2 ^ 23"
  unfolding assms using to_float_ieee_dyadic [of 7130317 23] by simp

lemma to_double_ieee_c:
  assumes "x = 7130317 / 2 ^ 23"
  shows "to_double ieee x = 7130317 / 2 ^ 23"
proof -
  have "\<bar>7130317 :: int\<bar> \<le> 2 ^ 53" by simp
  from round_to_precision_exact [OF this, of "- 23"]
  have "round_to_precision 53 (7130317 / 2 ^ 23) = 7130317 / 2 ^ 23"
    by (simp add: pow2_def)
  then show ?thesis
    unfolding assms by (simp add: to_double_ieee)
qed

lemma to_float_ieee_product:
  assumes "x = 7130317 / 2 ^ 23 * (7401713 / 2 ^ 23)"
  shows "to_float ieee x = 3 / 4"
  unfolding assms to_float_ieee
  by (subst round_to_precision_eval [where e = "-1"])
    (simp_all add: pow2_def round_half_even_def)

text \<open>
  Claim C2, as amended. In a round that is not the last, with \<open>c\<close> the \<open>float\<close> that
  the code computes from \<open>(1 - RESET_PROB) * (1 / out_degree)\<close>, or from
  \<open>(1 - RESET_PROB) * 1\<close> when the out-degree is 0: the new transient flow holds
  \<open>(k, t)\<close>, \<open>t\<close> the \<open>float\<close> product \<open>c * w\<close>, for exactly the entries \<open>(k, w)\<close> of the old
  one with \<open>t > threshold\<close>, in the same order, and the others are dropped; every
  entry \<open>(k, w)\<close> adds the \<open>float\<close> product \<open>RESET_PROB * w\<close> to \<open>residual[k]\<close> (an absent
  entry counts as 0), and the other residual entries, \<open>ppr\<close> and \<open>flow\<close> stay as they
  were.
\<close>

theorem apply_non_final_round:
  assumes "iteration \<noteq> niters g - 1"
    and "flat_map_inv (prog_flow prog)"
    and "flat_map_inv (residual (data vertex))"
    and "c = to_float fp (to_double fp (to_float fp (1 - RESET_PROB fp) *
              (if num_out_edges vertex = 0 then 1
               else to_double fp (1 / to_double fp (real (num_out_edges vertex))))))"
    and "DecompositionProgram_apply fp g iteration vertex prog = (vertex', prog')"
  shows "prog_flow prog' =
           map (\<lambda>(k, w). (k, to_float fp (c * w)))
             (filter (\<lambda>(k, w). to_float fp (c * w) > threshold g) (prog_flow prog)) \<and>
         (\<forall>k. map_of (prog_flow prog') k =
            (case map_of (prog_flow prog) k of
               None \<Rightarrow> None
             | Some w \<Rightarrow>
                 if to_float fp (c * w) > threshold g then Some (to_float fp (c * w)) else None)) \<and>
         (\<forall>k. map_of (residual (data vertex')) k =
            (case map_of (prog_flow prog) k of
               None \<Rightarrow> map_of (residual (data vertex)) k
             | Some w \<Rightarrow>
                 Some (to_float fp (weight_of (residual (data vertex)) k +
                                    to_float fp (RESET_PROB fp * w))))) \<and>
         ppr (data vertex') = ppr (data vertex) \<and>
         flow (data vertex') = flow (data vertex) \<and>
         vid vertex' = vid vertex \<and> num_out_edges vertex' = num_out_edges vertex"
proof -
  let ?fl = "prog_flow prog"
  let ?res = "residual (data vertex)"
  have c: "c = to_float fp (to_double fp (to_float fp (1 - RESET_PROB fp) *
      (if num_out_edges vertex > 0
       then to_double fp (1 / to_double fp (real (num_out_edges vertex))) else 1)))"
    using assms(4) by simp
  have d: "distinct (map fst ?fl)"
    using assms(2) by (rule flat_map_inv_distinct)
  have s: "sorted_wrt (<) (map fst ([] :: vec_map_t) @ map fst ?fl)"
    using assms(2) by (simp add: flat_map_inv_def)
  have nf: "snd (apply_loop fp c (threshold g) ?fl ?res []) =
      map (\<lambda>(k, w). (k, to_float fp (c * w)))
        (filter (\<lambda>(k, w). to_float fp (c * w) > threshold g) ?fl)"
    using apply_loop_new_flow [OF s] by simp
  have rs: "map_of (fst (apply_loop fp c (threshold g) ?fl ?res [])) k =
      (case map_of ?fl k of None \<Rightarrow> map_of ?res k
       | Some w \<Rightarrow> Some (to_float fp (weight_of ?res k + to_float fp (RESET_PROB fp * w))))" for k
    using apply_loop_residual [OF assms(3) d] by simp
  have v': "vertex' = vertex\<lparr>data := (data vertex)\<lparr>residual :=
        (if ?fl \<noteq> [] then fst (apply_loop fp c (threshold g) ?fl ?res []) else ?res)\<rparr>\<rparr>"
    and p': "prog' = prog\<lparr>prog_flow :=
        (if ?fl \<noteq> [] then snd (apply_loop fp c (threshold g) ?fl ?res []) else [])\<rparr>"
    using assms(1,5) unfolding c
    by (auto simp: DecompositionProgram_apply_def Let_def split: prod.splits if_splits)
  have flow_eq: "prog_flow prog' =
      map (\<lambda>(k, w). (k, to_float fp (c * w)))
        (filter (\<lambda>(k, w). to_float fp (c * w) > threshold g) ?fl)"
    using nf by (simp add: p')
  have flow_map: "map_of (prog_flow prog') k =
      (case map_of ?fl k of None \<Rightarrow> None
       | Some w \<Rightarrow> if to_float fp (c * w) > threshold g then Some (to_float fp (c * w)) else None)"
    for k
    unfolding flow_eq
    using map_of_map_filter [OF d, of "\<lambda>w. to_float fp (c * w)"
        "\<lambda>w. to_float fp (c * w) > threshold g" k] by simp
  have res_map: "map_of (residual (data vertex')) k =
      (case map_of ?fl k of None \<Rightarrow> map_of ?res k
       | Some w \<Rightarrow> Some (to_float fp (weight_of ?res k + to_float fp (RESET_PROB fp * w))))" for k
    using rs [of k] by (simp add: v')
  show ?thesis
    using flow_eq flow_map res_map by (simp add: v')
qed

theorem apply_non_final_round_witness:
  "DecompositionProgram_apply ieee
      \<lparr>threshold = 3 / 4, niters = 10, no_index = False, sources = None\<rparr> 0
      \<lparr>vid = 2, num_out_edges = 0, data = \<lparr>ppr = [(5, 1)], flow = [(3, 1 / 2)], residual = []\<rparr>\<rparr>
      \<lparr>prog_flow = [(0, 7401713 / 2 ^ 23), (4, 1)]\<rparr> =
    (\<lparr>vid = 2, num_out_edges = 0,
        data = \<lparr>ppr = [(5, 1)], flow = [(3, 1 / 2)],
                 residual = [(0, 1110257 / 2 ^ 23), (4, 5033165 / 2 ^ 25)]\<rparr>\<rparr>,
     \<lparr>prog_flow = [(4, 7130317 / 2 ^ 23)]\<rparr>)"
proof -
  let ?g = "\<lparr>threshold = 3 / 4, niters = 10, no_index = False, sources = None\<rparr>"
  let ?v = "\<lparr>vid = 2, num_out_edges = 0,
        data = \<lparr>ppr = [(5, 1)], flow = [(3, 1 / 2)], residual = []\<rparr>\<rparr>"
  let ?p = "\<lparr>prog_flow = [(0, 7401713 / 2 ^ 23), (4, 1)]\<rparr>"
  obtain v' p' where ap: "DecompositionProgram_apply ieee ?g 0 ?v ?p = (v', p')"
    by (cases "DecompositionProgram_apply ieee ?g 0 ?v ?p")
  have a: "(0 :: int) \<noteq> niters ?g - 1" by simp
  have b: "flat_map_inv (prog_flow ?p)" by (simp add: flat_map_inv_def)
  have c: "flat_map_inv (residual (data ?v))" by (simp add: flat_map_inv_def)
  have exact_r: "to_float ieee x = 5033165 / 2 ^ 25" if "x = 5033165 / 2 ^ 25" for x
    unfolding that using to_float_ieee_dyadic [of 5033165 25] by simp
  have exact_w: "to_float ieee x = 1110257 / 2 ^ 23" if "x = 1110257 / 2 ^ 23" for x
    unfolding that using to_float_ieee_dyadic [of 1110257 23] by simp
  have r0: "to_float ieee x = 1110257 / 2 ^ 23" if "x = 5033165 / 2 ^ 25 * (7401713 / 2 ^ 23)" for x
    unfolding that to_float_ieee
    by (subst round_to_precision_eval [where e = "-3"])
      (simp_all add: pow2_def round_half_even_def)
  have d: "7130317 / 2 ^ 23 =
      to_float ieee (to_double ieee (to_float ieee (1 - RESET_PROB ieee) *
        (if num_out_edges ?v = 0 then 1
         else to_double ieee (1 / to_double ieee (real (num_out_edges ?v))))))"
    by (simp add: RESET_PROB_ieee one_minus_RESET_PROB_ieee to_double_ieee_c to_float_ieee_c)
  from apply_non_final_round [OF a b c d ap]
  have "prog_flow p' = [(4, 7130317 / 2 ^ 23)]"
    and "map_of (residual (data v')) 0 = Some (1110257 / 2 ^ 23)"
    and "map_of (residual (data v')) 4 = Some (5033165 / 2 ^ 25)"
    by (simp_all add: RESET_PROB_ieee weight_of_def to_float_ieee_product to_float_ieee_c
        exact_r exact_w r0)
  moreover have "v' = ?v\<lparr>data := (data ?v)\<lparr>residual :=
      [(0, the (map_of (residual (data v')) 0)), (4, the (map_of (residual (data v')) 4))]\<rparr>\<rparr>"
    using ap by (auto simp: DecompositionProgram_apply_def Let_def)
  ultimately show ?thesis
    using ap by simp
qed

text \<open>
  The claim C2 as stated has \<open>c = 1\<close> for a vertex without out-edges. On such a vertex,
  with threshold 0, the flow entry \<open>(0, 1)\<close> becomes \<open>(0, 0.85000002)\<close>, the \<open>float\<close>
  \<open>1 - 0.15f\<close>, not \<open>(0, 1 * 1)\<close>. And the products are the code's \<open>float\<close> products:
  with threshold 0.75 the entry of weight \<open>7401713 / 2^23\<close> is dropped, its \<open>float\<close>
  product being 0.75, although \<open>(1 - 0.15) * w\<close> exceeds 0.75.
\<close>

theorem apply_scale_counterexample:
  "prog_flow (snd (DecompositionProgram_apply ieee
      \<lparr>threshold = 0, niters = 10, no_index = False, sources = None\<rparr> 0
      \<lparr>vid = 2, num_out_edges = 0, data = \<lparr>ppr = [], flow = [], residual = []\<rparr>\<rparr>
      \<lparr>prog_flow = [(0, 1)]\<rparr>)) = [(0, 7130317 / 2 ^ 23)] \<and>
   prog_flow (snd (DecompositionProgram_apply ieee
      \<lparr>threshold = 0, niters = 10, no_index = False, sources = None\<rparr> 0
      \<lparr>vid = 2, num_out_edges = 0, data = \<lparr>ppr = [], flow = [], residual = []\<rparr>\<rparr>
      \<lparr>prog_flow = [(0, 1)]\<rparr>)) \<noteq> [(0, 1 * 1)] \<and>
   prog_flow (snd (DecompositionProgram_apply ieee
      \<lparr>threshold = 3 / 4, niters = 10, no_index = False, sources = None\<rparr> 0
      \<lparr>vid = 2, num_out_edges = 0, data = \<lparr>ppr = [], flow = [], residual = []\<rparr>\<rparr>
      \<lparr>prog_flow = [(0, 7401713 / 2 ^ 23)]\<rparr>)) = [] \<and>
   (1 - 15 / 100) * (7401713 / 2 ^ 23) > (3 / 4 :: real)"
  by (simp add: DecompositionProgram_apply_def RESET_PROB_ieee one_minus_RESET_PROB_ieee
      to_double_ieee_c to_float_ieee_c to_float_ieee_product)

text \<open>
  Claim C10. \<open>CollectProgram::apply\<close>, after \<open>init\<close> stored the message, leaves \<open>flow\<close>
  and \<open>residual\<close> unchanged; a non-empty message replaces \<open>ppr\<close> by the flat map of the
  message's entries, whose key-to-weight mapping is the message's and does not depend
  on the old \<open>ppr\<close>; an empty message leaves the vertex unchanged.
\<close>

theorem collect_apply_overwrites_ppr:
  "flow (data (CollectProgram_apply vertex (CollectProgram_init msg prog))) = flow (data vertex) \<and>
   residual (data (CollectProgram_apply vertex (CollectProgram_init msg prog))) =
     residual (data vertex) \<and>
   (msg \<noteq> [] \<longrightarrow>
      ppr (data (CollectProgram_apply vertex (CollectProgram_init msg prog))) =
        flat_map_of_range msg \<and>
      map_of (ppr (data (CollectProgram_apply vertex (CollectProgram_init msg prog)))) = map_of msg \<and>
      flat_map_inv (ppr (data (CollectProgram_apply vertex (CollectProgram_init msg prog))))) \<and>
   (msg = [] \<longrightarrow> CollectProgram_apply vertex (CollectProgram_init msg prog) = vertex)"
  by (simp add: CollectProgram_apply_def CollectProgram_init_def map_of_flat_map_of_range
      flat_map_of_range_inv)

theorem collect_apply_overwrites_ppr_witness:
  "CollectProgram_apply
      \<lparr>vid = 1, num_out_edges = 2,
        data = \<lparr>ppr = [(5, 1)], flow = [(1, 1 / 2)], residual = [(0, 1 / 4)]\<rparr>\<rparr>
      (CollectProgram_init [(3, 1 / 2), (2, 1 / 4)] \<lparr>prog_ppr = []\<rparr>) =
    \<lparr>vid = 1, num_out_edges = 2,
        data = \<lparr>ppr = [(2, 1 / 4), (3, 1 / 2)], flow = [(1, 1 / 2)], residual = [(0, 1 / 4)]\<rparr>\<rparr> \<and>
   CollectProgram_apply
      \<lparr>vid = 1, num_out_edges = 2,
        data = \<lparr>ppr = [(5, 1)], flow = [(1, 1 / 2)], residual = [(0, 1 / 4)]\<rparr>\<rparr>
      (CollectProgram_init [] \<lparr>prog_ppr = [(3, 1 / 2)]\<rparr>) =
    \<lparr>vid = 1, num_out_edges = 2,
        data = \<lparr>ppr = [(5, 1)], flow = [(1, 1 / 2)], residual = [(0, 1 / 4)]\<rparr>\<rparr>"
proof -
  let ?v = "\<lparr>vid = 1, num_out_edges = 2,
        data = \<lparr>ppr = [(5, 1)], flow = [(1, 1 / 2)], residual = [(0, 1 / 4)]\<rparr>\<rparr>"
  have r: "flat_map_of_range [(3, 1 / 2), (2, 1 / 4 :: real)] = [(2, 1 / 4), (3, 1 / 2)]"
    by (simp add: flat_map_of_range_def)
  have "ppr (data (CollectProgram_apply ?v (CollectProgram_init [(3, 1 / 2), (2, 1 / 4)] \<lparr>prog_ppr = []\<rparr>))) =
      [(2, 1 / 4), (3, 1 / 2)]"
    using collect_apply_overwrites_ppr [of ?v "[(3, 1 / 2), (2, 1 / 4)]" "\<lparr>prog_ppr = []\<rparr>"]
    by (simp add: r)
  moreover have "CollectProgram_apply ?v (CollectProgram_init [] \<lparr>prog_ppr = [(3, 1 / 2)]\<rparr>) = ?v"
    using collect_apply_overwrites_ppr [of ?v "[]" "\<lparr>prog_ppr = [(3, 1 / 2)]\<rparr>"]
    by simp
  ultimately show ?thesis
    by (simp add: CollectProgram_apply_def CollectProgram_init_def)
qed

section \<open>Properties of the collection pass\<close>

lemma collect_residual_loop_eq:
  "collect_residual_loop th i res =
     map (\<lambda>(k, r). (k, [(i, r)])) (filter (\<lambda>(k, r). \<not> r < th) res)"
  by (induction th i res rule: collect_residual_loop.induct) simp_all

lemma keys_flat_map_assign_found:
  "map fst (flat_map_assign_found k x m) = map fst m"
  by (induction k x m rule: flat_map_assign_found.induct) simp_all

lemma collect_flow_loop_signals:
  "distinct (map fst fl) \<Longrightarrow>
     fst (collect_flow_loop fp th i p fl res) =
       map (\<lambda>(k, w). (k, case map_of res k of
                            None \<Rightarrow> map (\<lambda>(j, x). (j, to_float fp (x * w))) p
                          | Some r \<Rightarrow> unordered_map_modify i (\<lambda>x. to_float fp (x + r)) (map (\<lambda>(j, x). (j, to_float fp (x * w))) p)))
         (filter (\<lambda>(k, w). \<not> w < th) fl)"
proof (induction fp th i p fl res rule: collect_flow_loop.induct)
  case (1 fp th i p res)
  then show ?case by simp
next
  case (2 fp th i p k w fl res)
  from "2.prems" have d: "distinct (map fst fl)" and notin: "k \<notin> set (map fst fl)"
    by simp_all
  show ?case
  proof (cases "w < th")
    case True
    with "2.IH"(1) [OF True d] show ?thesis by simp
  next
    case False
    let ?val = "map (\<lambda>(j, x). (j, to_float fp (x * w))) p"
    let ?res' = "case map_of res k of None \<Rightarrow> res | Some r \<Rightarrow> flat_map_assign_found k 0 res"
    let ?val' = "case map_of res k of None \<Rightarrow> ?val
                 | Some r \<Rightarrow> unordered_map_modify i (\<lambda>x. to_float fp (x + r)) ?val"
    have same: "map_of ?res' j = map_of res j" if "j \<in> set (map fst fl)" for j
    proof -
      from that notin have "j \<noteq> k" by auto
      then show ?thesis
        by (simp add: map_of_flat_map_assign_found split: option.splits)
    qed
    have step: "collect_flow_loop fp th i p ((k, w) # fl) res =
        ((k, ?val') # fst (collect_flow_loop fp th i p fl ?res'),
         snd (collect_flow_loop fp th i p fl ?res'))"
      using False by (simp add: Let_def split: option.splits prod.splits)
    have IH: "fst (collect_flow_loop fp th i p fl ?res') =
        map (\<lambda>(k, w). (k, case map_of ?res' k of
                            None \<Rightarrow> map (\<lambda>(j, x). (j, to_float fp (x * w))) p
                          | Some r \<Rightarrow> unordered_map_modify i (\<lambda>x. to_float fp (x + r)) (map (\<lambda>(j, x). (j, to_float fp (x * w))) p)))
         (filter (\<lambda>(k, w). \<not> w < th) fl)"
    proof (cases "map_of res k")
      case None
      have eq: "(?val, res) =
          (case map_of res k of None \<Rightarrow> (?val, res)
           | Some r \<Rightarrow> (unordered_map_modify i (\<lambda>x. to_float fp (x + r)) ?val, flat_map_assign_found k 0 res))"
        using None by simp
      from "2.IH"(2) [OF False refl refl eq d] None show ?thesis by simp
    next
      case (Some r)
      have eq: "(unordered_map_modify i (\<lambda>x. to_float fp (x + r)) ?val, flat_map_assign_found k 0 res) =
          (case map_of res k of None \<Rightarrow> (?val, res)
           | Some r \<Rightarrow> (unordered_map_modify i (\<lambda>x. to_float fp (x + r)) ?val, flat_map_assign_found k 0 res))"
        using Some by simp
      from "2.IH"(2) [OF False refl refl eq d] Some show ?thesis by simp
    qed
    have "fst (collect_flow_loop fp th i p fl ?res') =
        map (\<lambda>(k, w). (k, case map_of res k of
                            None \<Rightarrow> map (\<lambda>(j, x). (j, to_float fp (x * w))) p
                          | Some r \<Rightarrow> unordered_map_modify i (\<lambda>x. to_float fp (x + r)) (map (\<lambda>(j, x). (j, to_float fp (x * w))) p)))
         (filter (\<lambda>(k, w). \<not> w < th) fl)"
      unfolding IH
    proof (rule map_cong [OF refl])
      fix e assume "e \<in> set (filter (\<lambda>(k, w). \<not> w < th) fl)"
      then have "fst e \<in> set (map fst fl)" by auto
      from same [OF this] show "(case e of (k, w) \<Rightarrow> (k, case map_of ?res' k of
                            None \<Rightarrow> map (\<lambda>(j, x). (j, to_float fp (x * w))) p
                          | Some r \<Rightarrow> unordered_map_modify i (\<lambda>x. to_float fp (x + r)) (map (\<lambda>(j, x). (j, to_float fp (x * w))) p))) =
         (case e of (k, w) \<Rightarrow> (k, case map_of res k of
                            None \<Rightarrow> map (\<lambda>(j, x). (j, to_float fp (x * w))) p
                          | Some r \<Rightarrow> unordered_map_modify i (\<lambda>x. to_float fp (x + r)) (map (\<lambda>(j, x). (j, to_float fp (x * w))) p)))"
        by (cases e) simp
    qed
    with False show ?thesis
      unfolding step by simp
  qed
qed

lemma collect_flow_loop_residual:
  "distinct (map fst fl) \<Longrightarrow> distinct (map fst res) \<Longrightarrow>
     snd (collect_flow_loop fp th i p fl res) =
       map (\<lambda>(j, r). (j, if (\<exists>w. map_of fl j = Some w \<and> \<not> w < th) then 0 else r)) res"
proof (induction fp th i p fl res rule: collect_flow_loop.induct)
  case (1 fp th i p res)
  then show ?case by simp
next
  case (2 fp th i p k w fl res)
  from "2.prems" have d: "distinct (map fst fl)" and notin: "map_of fl k = None"
    by (simp_all add: map_of_eq_None_iff)
  show ?case
  proof (cases "w < th")
    case True
    have "(\<exists>w'. map_of ((k, w) # fl) j = Some w' \<and> \<not> w' < th) \<longleftrightarrow>
        (\<exists>w'. map_of fl j = Some w' \<and> \<not> w' < th)" for j
      using True notin by simp
    with "2.IH"(1) [OF True d "2.prems"(2)] True show ?thesis by simp
  next
    case False
    let ?val = "map (\<lambda>(j, x). (j, to_float fp (x * w))) p"
    let ?res' = "case map_of res k of None \<Rightarrow> res | Some r \<Rightarrow> flat_map_assign_found k 0 res"
    have step: "snd (collect_flow_loop fp th i p ((k, w) # fl) res) =
        snd (collect_flow_loop fp th i p fl ?res')"
      using False by (simp add: Let_def split: option.splits prod.splits)
    have zero: "(\<exists>w'. map_of ((k, w) # fl) j = Some w' \<and> \<not> w' < th) \<longleftrightarrow>
        (j = k \<or> (\<exists>w'. map_of fl j = Some w' \<and> \<not> w' < th))" for j
      using False notin by auto
    show ?thesis
    proof (cases "map_of res k")
      case None
      have eq: "(?val, res) =
          (case map_of res k of None \<Rightarrow> (?val, res)
           | Some r \<Rightarrow> (unordered_map_modify i (\<lambda>x. to_float fp (x + r)) ?val, flat_map_assign_found k 0 res))"
        using None by simp
      have IH: "snd (collect_flow_loop fp th i p fl res) =
          map (\<lambda>(j, r). (j, if (\<exists>w. map_of fl j = Some w \<and> \<not> w < th) then 0 else r)) res"
        by (rule "2.IH"(2) [OF False refl refl eq d "2.prems"(2)])
      have "map (\<lambda>(j, r). (j, if (\<exists>w. map_of fl j = Some w \<and> \<not> w < th) then 0 else r)) res =
          map (\<lambda>(j, r). (j, if (\<exists>w'. map_of ((k, w) # fl) j = Some w' \<and> \<not> w' < th) then 0 else r)) res"
      proof (rule map_cong [OF refl])
        fix e assume "e \<in> set res"
        then have "map_of res (fst e) \<noteq> None"
          by (simp add: map_of_eq_None_iff)
        with None have "fst e \<noteq> k" by auto
        then show "(case e of (j, r) \<Rightarrow> (j, if (\<exists>w. map_of fl j = Some w \<and> \<not> w < th) then 0 else r)) =
            (case e of (j, r) \<Rightarrow> (j, if (\<exists>w'. map_of ((k, w) # fl) j = Some w' \<and> \<not> w' < th) then 0 else r))"
          by (cases e) (simp add: zero)
      qed
      with IH None show ?thesis
        unfolding step by simp
    next
      case (Some r)
      have eq: "(unordered_map_modify i (\<lambda>x. to_float fp (x + r)) ?val, flat_map_assign_found k 0 res) =
          (case map_of res k of None \<Rightarrow> (?val, res)
           | Some r \<Rightarrow> (unordered_map_modify i (\<lambda>x. to_float fp (x + r)) ?val, flat_map_assign_found k 0 res))"
        using Some by simp
      have d': "distinct (map fst (flat_map_assign_found k 0 res))"
        using "2.prems"(2) by (simp add: keys_flat_map_assign_found)
      have IH: "snd (collect_flow_loop fp th i p fl (flat_map_assign_found k 0 res)) =
          map (\<lambda>(j, r). (j, if (\<exists>w. map_of fl j = Some w \<and> \<not> w < th) then 0 else r))
            (flat_map_assign_found k 0 res)"
        by (rule "2.IH"(2) [OF False refl refl eq d d'])
      have "map (\<lambda>(j, r). (j, if (\<exists>w. map_of fl j = Some w \<and> \<not> w < th) then 0 else r))
            (flat_map_assign_found k 0 res) =
          map (\<lambda>(j, r). (j, if (\<exists>w'. map_of ((k, w) # fl) j = Some w' \<and> \<not> w' < th) then 0 else r)) res"
        unfolding flat_map_assign_found_distinct [OF "2.prems"(2)] map_map
        using False notin by (intro map_cong [OF refl]) auto
      with IH Some show ?thesis
        unfolding step by simp
    qed
  qed
qed

lemma weight_of_scaled:
  "weight_of (map (\<lambda>(j, x). (j, to_float fp (x * w))) p) i =
     (case map_of p i of None \<Rightarrow> 0 | Some x \<Rightarrow> to_float fp (x * w))"
  by (simp add: weight_of_def map_of_map split: option.splits)

lemma keys_significant:
  "distinct (map fst fl) \<Longrightarrow>
     k \<in> set (map fst (filter (\<lambda>(k, w). P w) fl)) \<longleftrightarrow> (\<exists>w. map_of fl k = Some w \<and> P w)"
proof (induction fl)
  case Nil
  then show ?case by simp
next
  case (Cons e fl)
  obtain k' w' where e: "e = (k', w')" by (cases e)
  from Cons.prems have notin: "map_of fl k' = None" and d: "distinct (map fst fl)"
    by (simp_all add: e map_of_eq_None_iff)
  from Cons.IH [OF d] notin show ?case
    by (auto simp: e)
qed

text \<open>
  Claim C3, as amended. The flow entries that count are those with weight at least
  the threshold when \<open>no_index\<close> is false, and none when it is true. The signals of the
  pass are, in this order: one per such entry \<open>(k, w)\<close>, sent to \<open>k\<close>, whose message
  maps every key of \<open>ppr\<close> to the \<open>float\<close> product of its weight and \<open>w\<close>, except that,
  when \<open>residual\<close> has an entry for \<open>k\<close>, the key of the sending vertex's own id maps
  to the \<open>float\<close> sum of its scaled \<open>ppr\<close> weight (0 when absent) and that residual
  weight; then one per entry \<open>(k, r)\<close> of
  the residual, read after the entries of the flow keys that counted were set to 0,
  with \<open>r\<close> at least the threshold, sent to \<open>k\<close> with the single entry
  \<open>(vertex id, r)\<close>. The pass leaves \<open>residual\<close> empty and \<open>ppr\<close> and \<open>flow\<close> as they were.
\<close>

theorem collect_results_signals:
  assumes "flat_map_inv (flow (data vertex))"
    and "flat_map_inv (residual (data vertex))"
    and "collect_results fp g vertex = (sigs, vertex')"
    and "significant =
          (if no_index g then []
           else filter (\<lambda>(k, w). \<not> w < threshold g) (flow (data vertex)))"
    and "remaining =
          map (\<lambda>(k, r). (k, if k \<in> set (map fst significant) then 0 else r))
            (residual (data vertex))"
  shows "(\<exists>flow_sigs.
            sigs = flow_sigs @
              map (\<lambda>(k, r). (k, [(vid vertex, r)]))
                (filter (\<lambda>(k, r). \<not> r < threshold g) remaining) \<and>
            list_all2
              (\<lambda>(k, w) (target, msg). target = k \<and>
                 (\<forall>j. map_of msg j =
                    (case (if j = vid vertex then map_of (residual (data vertex)) k else None) of
                       None \<Rightarrow>
                         map_option (\<lambda>x. to_float fp (x * w)) (map_of (ppr (data vertex)) j)
                     | Some r \<Rightarrow>
                         Some (to_float fp
                           ((case map_of (ppr (data vertex)) j of
                               None \<Rightarrow> 0
                             | Some x \<Rightarrow> to_float fp (x * w)) + r)))))
              significant flow_sigs) \<and>
         residual (data vertex') = [] \<and>
         ppr (data vertex') = ppr (data vertex) \<and>
         flow (data vertex') = flow (data vertex) \<and>
         vid vertex' = vid vertex"
proof -
  let ?fl = "flow (data vertex)" and ?res = "residual (data vertex)" and ?p = "ppr (data vertex)"
  let ?th = "threshold g" and ?i = "vid vertex"
  let ?msg = "\<lambda>(k, w). (k, case map_of ?res k of
                            None \<Rightarrow> map (\<lambda>(j, x). (j, to_float fp (x * w))) ?p
                          | Some r \<Rightarrow> unordered_map_modify ?i (\<lambda>x. to_float fp (x + r)) (map (\<lambda>(j, x). (j, to_float fp (x * w))) ?p))"
  have dfl: "distinct (map fst ?fl)" and dres: "distinct (map fst ?res)"
    using assms(1,2) by (simp_all add: flat_map_inv_distinct)
  have v': "vertex' = vertex\<lparr>data := (data vertex)\<lparr>residual := []\<rparr>\<rparr>"
    using assms(3) by (auto simp: collect_results_def Let_def split: prod.splits)
  have rem: "remaining = (if no_index g then ?res else snd (collect_flow_loop fp ?th ?i ?p ?fl ?res))"
  proof (cases "no_index g")
    case True
    then show ?thesis by (simp add: assms(4,5) split_def)
  next
    case False
    have "map (\<lambda>(k, r). (k, if k \<in> set (map fst significant) then 0 else r)) ?res =
        map (\<lambda>(j, r). (j, if (\<exists>w. map_of ?fl j = Some w \<and> \<not> w < ?th) then 0 else r)) ?res"
      using False keys_significant [OF dfl, of _ "\<lambda>w. \<not> w < ?th"]
      by (simp add: assms(4))
    with False show ?thesis
      by (simp add: assms(5) collect_flow_loop_residual [OF dfl dres])
  qed
  have sg: "map ?msg significant = (if no_index g then [] else fst (collect_flow_loop fp ?th ?i ?p ?fl ?res))"
    by (simp add: assms(4) collect_flow_loop_signals [OF dfl])
  have sigs: "sigs = map ?msg significant @
      map (\<lambda>(k, r). (k, [(?i, r)])) (filter (\<lambda>(k, r). \<not> r < ?th) remaining)"
    using assms(3) unfolding rem sg
    by (auto simp: collect_results_def Let_def collect_residual_loop_eq split: prod.splits)
  have sem: "list_all2
      (\<lambda>(k, w) (target, msg). target = k \<and>
         (\<forall>j. map_of msg j =
            (case (if j = ?i then map_of ?res k else None) of
               None \<Rightarrow> map_option (\<lambda>x. to_float fp (x * w)) (map_of ?p j)
             | Some r \<Rightarrow>
                 Some (to_float fp
                   ((case map_of ?p j of None \<Rightarrow> 0 | Some x \<Rightarrow> to_float fp (x * w)) + r)))))
      significant (map ?msg significant)"
    unfolding list_all2_map2
    by (rule list_all2_same [THEN iffD2])
      (auto simp: map_of_unordered_map_modify map_of_map weight_of_scaled split: option.splits)
  from sigs sem show ?thesis
    by (auto simp: v')
qed

theorem collect_results_signals_witness:
  "\<exists>m0 m5.
     collect_results ieee \<lparr>threshold = 1 / 8, niters = 10, no_index = False, sources = None\<rparr>
       \<lparr>vid = 2, num_out_edges = 0,
         data = \<lparr>ppr = [(1, 1 / 2), (3, 1 / 2)], flow = [(0, 1 / 2), (4, 1 / 16), (5, 1)],
                  residual = [(0, 1 / 4), (1, 1 / 2), (5, 1 / 16), (6, 1 / 32)]\<rparr>\<rparr> =
       ([(0, m0), (5, m5), (1, [(2, 1 / 2)])],
        \<lparr>vid = 2, num_out_edges = 0,
         data = \<lparr>ppr = [(1, 1 / 2), (3, 1 / 2)], flow = [(0, 1 / 2), (4, 1 / 16), (5, 1)],
                  residual = []\<rparr>\<rparr>) \<and>
     map_of m0 2 = Some (1 / 4) \<and> map_of m0 3 = Some (1 / 4) \<and> map_of m0 4 = None \<and>
     map_of m5 2 = Some (1 / 16) \<and> map_of m5 3 = Some (1 / 2)"
proof -
  let ?g = "\<lparr>threshold = 1 / 8, niters = 10, no_index = False, sources = None\<rparr>"
  let ?v = "\<lparr>vid = 2, num_out_edges = 0,
         data = \<lparr>ppr = [(1, 1 / 2), (3, 1 / 2)], flow = [(0, 1 / 2), (4, 1 / 16), (5, 1)],
                  residual = [(0, 1 / 4), (1, 1 / 2), (5, 1 / 16), (6, 1 / 32)]\<rparr>\<rparr>"
  obtain sigs v' where run: "collect_results ieee ?g ?v = (sigs, v')"
    by (cases "collect_results ieee ?g ?v")
  have a: "flat_map_inv (flow (data ?v))" and b: "flat_map_inv (residual (data ?v))"
    by (simp_all add: flat_map_inv_def)
  have c: "[(0, 1 / 2), (5, 1)] =
      (if no_index ?g then [] else filter (\<lambda>(k, w). \<not> w < threshold ?g) (flow (data ?v)))"
    by simp
  have d: "[(0, 0), (1, 1 / 2), (5, 0), (6, 1 / 32)] =
      map (\<lambda>(k, r). (k, if k \<in> set (map fst [(0 :: nat, 1 / 2 :: real), (5, 1)]) then 0 else r))
        (residual (data ?v))"
    by simp
  have v': "v' = \<lparr>vid = 2, num_out_edges = 0,
         data = \<lparr>ppr = [(1, 1 / 2), (3, 1 / 2)], flow = [(0, 1 / 2), (4, 1 / 16), (5, 1)],
                  residual = []\<rparr>\<rparr>"
    using run by (auto simp: collect_results_def Let_def split: prod.splits)
  have e2: "to_float ieee x = 1 / 2" if "x = 1 / 2" for x
    unfolding that using to_float_ieee_dyadic [of 1 1] by simp
  have e4: "to_float ieee x = 1 / 4" if "x = 1 / 4" for x
    unfolding that using to_float_ieee_dyadic [of 1 2] by simp
  have e16: "to_float ieee x = 1 / 16" if "x = 1 / 16" for x
    unfolding that using to_float_ieee_dyadic [of 1 4] by simp
  from collect_results_signals [OF a b run c d]
  show ?thesis
    unfolding run v'
    by (auto simp: list_all2_Cons1 e2 e4 e16)
qed

text \<open>
  The claim C3 as stated has a signal for every flow entry of weight at least the
  threshold. With \<open>no_index\<close> set, a vertex whose flow holds \<open>(3, 1)\<close>, above the
  threshold 0, sends no signal at all.
\<close>

theorem collect_results_no_index_counterexample:
  "fst (collect_results ieee \<lparr>threshold = 0, niters = 10, no_index = True, sources = None\<rparr>
      \<lparr>vid = 0, num_out_edges = 1,
        data = \<lparr>ppr = [(0, 1)], flow = [(3, 1)], residual = []\<rparr>\<rparr>) = [] \<and>
   \<not> (1 :: float_type) < threshold \<lparr>threshold = 0, niters = 10, no_index = True, sources = None\<rparr>"
  by (simp add: collect_results_def)

section \<open>Properties of the result writer\<close>

lemma string_of_nat_digit: "n < 10 \<Longrightarrow> string_of_nat n = [digit_char n]"
  by (simp add: string_of_nat.simps)

lemma digit_char_not_newline: "d < 10 \<Longrightarrow> digit_char d \<noteq> CHR 0x0A"
proof -
  assume "d < 10"
  then have "digit_char d \<in> set ''0123456789''"
    unfolding digit_char_def by (intro nth_mem) simp
  then show ?thesis by auto
qed

lemma string_of_nat_no_newline: "CHR 0x0A \<notin> set (string_of_nat n)"
proof (induction n rule: string_of_nat.induct)
  case (1 n)
  show ?case
  proof (cases "n < 10")
    case True
    then show ?thesis
      using digit_char_not_newline [of n] by (simp add: string_of_nat_digit)
  next
    case False
    have "n mod 10 < 10" by simp
    from digit_char_not_newline [OF this] "1.IH" [OF False] False show ?thesis
      by (subst string_of_nat.simps) auto
  qed
qed

lemma map_nth_upt_take:
  "n \<le> length xs \<Longrightarrow> map (\<lambda>i. f (xs ! i)) [0..<n] = map f (take n xs)"
  by (rule nth_equalityI) simp_all

lemma sorted_wrt_strict_of_distinct:
  "distinct (map f xs) \<Longrightarrow> sorted_wrt (\<lambda>a b. f a \<ge> f b) xs \<Longrightarrow>
     sorted_wrt (\<lambda>a b. f a > (f b :: real)) xs"
proof (induction xs)
  case Nil
  then show ?case by simp
next
  case (Cons a xs)
  have "f a > f b" if "b \<in> set xs" for b
  proof -
    from that Cons.prems(1) have "f a \<noteq> f b" by force
    moreover from that Cons.prems(2) have "f a \<ge> f b" by simp
    ultimately show ?thesis by simp
  qed
  with Cons show ?case by simp
qed

lemma sorted_desc_unique:
  "mset xs = mset ys \<Longrightarrow> sorted_wrt (\<lambda>a b. snd a \<ge> snd b) xs \<Longrightarrow>
     sorted_wrt (\<lambda>a b. snd a > (snd b :: real)) ys \<Longrightarrow> xs = ys"
proof (induction ys arbitrary: xs)
  case Nil
  then show ?case by simp
next
  case (Cons y ys)
  from Cons.prems(1) obtain x xs' where xs: "xs = x # xs'"
    by (cases xs) auto
  have "x = y"
  proof (rule ccontr)
    assume ne: "x \<noteq> y"
    from Cons.prems(1) have "x \<in> set (y # ys)" and "y \<in> set (x # xs')"
      unfolding xs by (metis list.set_intros(1) set_mset_mset)+
    with ne have "x \<in> set ys" and "y \<in> set xs'" by auto
    with Cons.prems(2,3) have "snd y > snd x" and "snd x \<ge> snd y"
      unfolding xs by auto
    then show False by simp
  qed
  with Cons.prems have "mset xs' = mset ys" and "sorted_wrt (\<lambda>a b. snd a \<ge> snd b) xs'"
    and "sorted_wrt (\<lambda>a b. snd a > snd b) ys"
    unfolding xs by simp_all
  then have "xs' = ys" by (rule Cons.IH)
  with \<open>x = y\<close> show ?case by (simp add: xs)
qed

lemma sort_key_contract:
  "std_sort_contract (\<lambda>cmp. sort_key (\<lambda>p. - snd p)) compare"
proof -
  have "sorted_wrt (\<lambda>a b. \<not> compare b a) (sort_key (\<lambda>p. - snd p) xs)" for xs
    using sorted_sort_key [of "\<lambda>p. - snd p" xs]
    by (simp add: sorted_map compare_def not_less)
  then show ?thesis
    by (simp add: std_sort_contract_def)
qed

text \<open>
  Claim C7, as amended. For any sort that keeps the promise of \<open>std::sort\<close>: a vertex
  with an empty \<open>ppr\<close> writes nothing; any other vertex writes exactly one line, its id,
  then \<open>k = min(topk, size of ppr)\<close>, then the keys of the first \<open>k\<close> entries of a
  rearrangement of \<open>ppr\<close> in which the weights never increase, each preceded by a
  space, then the newline. When the weights of \<open>ppr\<close> are pairwise distinct they
  decrease strictly along the rearrangement. For \<open>ppr = {5: 0.4, 2: 0.9, 7: 0.1}\<close> and
  \<open>topk = 2\<close> the line is the id followed by \<open>2 2 5\<close>.
\<close>

theorem save_vertex_line:
  assumes "std_sort_contract std_sort compare"
    and "k = min topk (length (ppr (data vertex)))"
  shows "(ppr (data vertex) = [] \<longrightarrow> save_vertex std_sort topk vertex = []) \<and>
         (ppr (data vertex) \<noteq> [] \<longrightarrow>
            (\<exists>result.
               mset result = mset (ppr (data vertex)) \<and>
               sorted_wrt (\<lambda>a b. snd a \<ge> snd b) result \<and>
               (distinct (map snd (ppr (data vertex))) \<longrightarrow>
                  sorted_wrt (\<lambda>a b. snd a > snd b) result) \<and>
               save_vertex std_sort topk vertex =
                 string_of_nat (vid vertex) @ '' '' @ string_of_nat k @
                 concat (map (\<lambda>i. '' '' @ string_of_nat i) (map fst (take k result))) @
                 [CHR 0x0A]) \<and>
            count_list (save_vertex std_sort topk vertex) (CHR 0x0A) = 1) \<and>
         (ppr (data vertex) = [(2, 9 / 10), (5, 4 / 10), (7, 1 / 10)] \<and> topk = 2 \<longrightarrow>
            save_vertex std_sort topk vertex = string_of_nat (vid vertex) @ '' 2 2 5'' @ [CHR 0x0A])"
proof -
  let ?p = "ppr (data vertex)"
  let ?result = "std_sort compare ?p"
  have perm: "mset ?result = mset ?p"
    and srt: "sorted_wrt (\<lambda>a b. snd a \<ge> snd b) ?result"
    using assms(1) by (simp_all add: std_sort_contract_def compare_def not_less)
  have len: "length ?result = length ?p"
    using perm by (rule mset_eq_length)
  have strict: "sorted_wrt (\<lambda>a b. snd a > snd b) ?result" if "distinct (map snd ?p)"
  proof -
    have "mset (map snd ?result) = mset (map snd ?p)"
      using perm by simp
    then have "distinct (map snd ?result)"
      using that by (metis mset_eq_imp_distinct_iff)
    then show ?thesis
      using srt by (rule sorted_wrt_strict_of_distinct)
  qed
  have line: "save_vertex std_sort topk vertex =
      string_of_nat (vid vertex) @ '' '' @ string_of_nat k @
      concat (map (\<lambda>i. '' '' @ string_of_nat i) (map fst (take k ?result))) @ [CHR 0x0A]"
    if "?p \<noteq> []"
  proof -
    have "k \<le> length ?result"
      by (simp add: assms(2) len)
    then have "map (\<lambda>i. '' '' @ string_of_nat (fst (?result ! i))) [0..<k] =
        map (\<lambda>p. '' '' @ string_of_nat (fst p)) (take k ?result)"
      by (rule map_nth_upt_take)
    with that show ?thesis
      by (simp add: save_vertex_def Let_def assms(2) len comp_def)
  qed
  have one: "count_list (save_vertex std_sort topk vertex) (CHR 0x0A) = 1" if "?p \<noteq> []"
  proof -
    have "CHR 0x0A \<notin> set (concat (map (\<lambda>i. '' '' @ string_of_nat i) (map fst (take k ?result))))"
      by (auto simp: string_of_nat_no_newline)
    then show ?thesis
      unfolding line [OF that]
      by (simp add: count_list_0_iff [THEN iffD2] string_of_nat_no_newline)
  qed
  have example: "save_vertex std_sort topk vertex =
      string_of_nat (vid vertex) @ '' 2 2 5'' @ [CHR 0x0A]"
    if p: "?p = [(2, 9 / 10), (5, 4 / 10), (7, 1 / 10)]" and t: "topk = 2"
  proof -
    have "sorted_wrt (\<lambda>a b. snd a > snd b) [(2 :: nat, 9 / 10 :: real), (5, 4 / 10), (7, 1 / 10)]"
      by simp
    with perm srt have r: "?result = [(2, 9 / 10), (5, 4 / 10), (7, 1 / 10)]"
      unfolding p by (rule sorted_desc_unique)
    have ne: "?p \<noteq> []" by (simp add: p)
    have k: "k = 2" by (simp add: assms(2) p t)
    show ?thesis
      unfolding line [OF ne] r k
      by (simp add: string_of_nat_digit digit_char_def)
  qed
  show ?thesis
    using perm srt strict line one example
    by (auto simp: save_vertex_def)
qed

theorem save_vertex_line_witness:
  "std_sort_contract (\<lambda>cmp. sort_key (\<lambda>p. - snd p)) compare \<and>
   save_vertex (\<lambda>cmp. sort_key (\<lambda>p. - snd p)) 2
     \<lparr>vid = 11, num_out_edges = 0,
       data = \<lparr>ppr = [(2, 9 / 10), (5, 4 / 10), (7, 1 / 10)], flow = [], residual = []\<rparr>\<rparr> =
     ''11 2 2 5'' @ [CHR 0x0A] \<and>
   save_vertex (\<lambda>cmp. sort_key (\<lambda>p. - snd p)) 2
     \<lparr>vid = 11, num_out_edges = 0, data = \<lparr>ppr = [], flow = [], residual = []\<rparr>\<rparr> = []"
proof -
  let ?v = "\<lparr>vid = 11, num_out_edges = 0,
       data = \<lparr>ppr = [(2, 9 / 10), (5, 4 / 10), (7, 1 / 10)], flow = [], residual = []\<rparr>\<rparr>"
  let ?e = "\<lparr>vid = 11, num_out_edges = 0, data = \<lparr>ppr = [], flow = [], residual = []\<rparr>\<rparr>"
  have k: "2 = min 2 (length (ppr (data ?v)))" and k0: "0 = min 2 (length (ppr (data ?e)))"
    by simp_all
  have id: "string_of_nat 11 = ''11''"
    by (simp add: string_of_nat.simps [of 11] string_of_nat_digit digit_char_def)
  show ?thesis
    using save_vertex_line [OF sort_key_contract k] save_vertex_line [OF sort_key_contract k0]
      sort_key_contract
    by (simp add: id)
qed

text \<open>
  The claim C7 as stated has the emitted keys in strictly decreasing weight. With
  \<open>ppr = {3: 0.5, 4: 0.5}\<close> and a sort that keeps the promise of \<open>std::sort\<close> the writer
  emits the keys 3 and 4, whose weights are equal: neither order of the two keys
  decreases strictly.
\<close>

theorem save_vertex_ties_counterexample:
  "std_sort_contract (\<lambda>cmp. sort_key (\<lambda>p. - snd p)) compare \<and>
   save_vertex (\<lambda>cmp. sort_key (\<lambda>p. - snd p)) 2
     \<lparr>vid = 0, num_out_edges = 0,
       data = \<lparr>ppr = [(3, 1 / 2), (4, 1 / 2)], flow = [], residual = []\<rparr>\<rparr> =
     ''0 2 3 4'' @ [CHR 0x0A] \<and>
   \<not> sorted_wrt (\<lambda>a b. weight_of [(3, 1 / 2 :: real), (4, 1 / 2)] a >
                         weight_of [(3, 1 / 2), (4, 1 / 2)] b) [3, 4] \<and>
   \<not> sorted_wrt (\<lambda>a b. weight_of [(3, 1 / 2 :: real), (4, 1 / 2)] a >
                         weight_of [(3, 1 / 2), (4, 1 / 2)] b) [4, 3]"
  using sort_key_contract
  by (simp add: save_vertex_def weight_of_def string_of_nat_digit digit_char_def compare_def)


end
